theory Spec2Isabelle
  imports Complex_Main "HOL-Library.Sublist"
begin

section \<open>The CloudWatch log processor (infra/lambda/log\_processor.py)\<close>

text \<open>
  A shallow embedding of \<^verbatim>\<open>log_processor.py\<close>. The handler receives data that was
  deserialised from JSON, so every value it touches is a dynamically typed Python value;
  each operation of the source that can raise is a function into a sum type whose left
  summand is the exception. The calls to the AWS clients are kept as a trace of requests,
  in the order the program issues them, together with the outcome the environment gives
  to each request.

  Strings are lists of 8-bit characters. Letter case and decimal digits are those of
  ASCII, where \<^verbatim>\<open>str.lower\<close> and the pattern \<^verbatim>\<open>\d\<close> of the source agree with the
  definitions below.
\<close>

subsection \<open>Python values and exceptions\<close>

datatype pyval =
    PNone
  | PBool bool
  | PInt int
  | PFloat rat
  | PStr string
  | PList "pyval list"
  | PDict "(string \<times> pyval) list"

text \<open>
  A float carries the rational number it denotes (not-a-number and the infinities are
  left out). A dictionary is the list of its items in insertion order; a key is looked up
  with \<^const>\<open>map_of\<close>.

  The exceptions are those that \<^verbatim>\<open>except Exception\<close> catches. An exception carries
  the text that \<^verbatim>\<open>str(e)\<close> gives, except \<open>KeyError\<close>, which carries the missing key
  (its text is the key in quotes). \<open>ClientError\<close> stands for whatever a library or an AWS
  client raises. The wording of some of the interpreter's messages differs between
  versions of Python; the statements below do not depend on those.
\<close>

datatype pyerr =
    KeyError string
  | TypeError string
  | AttributeError string
  | OverflowError string
  | ZeroDivisionError string
  | ClientError string

fun exn_str :: "pyerr \<Rightarrow> string" where
  "exn_str (KeyError k) = [CHR 0x27] @ k @ [CHR 0x27]"
| "exn_str (TypeError m) = m"
| "exn_str (AttributeError m) = m"
| "exn_str (OverflowError m) = m"
| "exn_str (ZeroDivisionError m) = m"
| "exn_str (ClientError m) = m"

text \<open>Sequencing of steps that may raise: the first exception ends the sequence.\<close>

fun and_then :: "pyerr + 'a \<Rightarrow> ('a \<Rightarrow> pyerr + 'b) \<Rightarrow> pyerr + 'b" where
  "and_then (Inl e) f = Inl e"
| "and_then (Inr x) f = f x"

text \<open>The name of a value's type, as it appears in the interpreter's messages.\<close>

fun type_name :: "pyval \<Rightarrow> string" where
  "type_name PNone = ''NoneType''"
| "type_name (PBool b) = ''bool''"
| "type_name (PInt n) = ''int''"
| "type_name (PFloat q) = ''float''"
| "type_name (PStr s) = ''str''"
| "type_name (PList xs) = ''list''"
| "type_name (PDict kvs) = ''dict''"

text \<open>\<^verbatim>\<open>v[k]\<close> for a string key \<open>k\<close>.\<close>

fun subscr :: "pyval \<Rightarrow> string \<Rightarrow> pyerr + pyval" where
  "subscr (PDict kvs) k = (case map_of kvs k of Some v \<Rightarrow> Inr v | None \<Rightarrow> Inl (KeyError k))"
| "subscr (PStr s) k = Inl (TypeError ''string indices must be integers'')"
| "subscr (PList xs) k = Inl (TypeError ''list indices must be integers or slices, not str'')"
| "subscr v k = Inl (TypeError ([CHR 0x27] @ type_name v @ [CHR 0x27] @ '' object is not subscriptable''))"

text \<open>
  \<^verbatim>\<open>k in v\<close> for a string \<open>k\<close>: substring containment in a string, membership in a
  list, key membership in a dictionary, and a \<open>TypeError\<close> otherwise.
\<close>

fun contains :: "string \<Rightarrow> pyval \<Rightarrow> pyerr + bool" where
  "contains k (PStr s) = Inr (sublist k s)"
| "contains k (PList xs) = Inr (PStr k \<in> set xs)"
| "contains k (PDict kvs) = Inr (k \<in> set (map fst kvs))"
| "contains k v = Inl (TypeError (''argument of type '' @ [CHR 0x27] @ type_name v @ [CHR 0x27] @ '' is not iterable''))"

text \<open>The items a \<^verbatim>\<open>for\<close> loop visits.\<close>

fun py_iter :: "pyval \<Rightarrow> pyerr + pyval list" where
  "py_iter (PList xs) = Inr xs"
| "py_iter (PDict kvs) = Inr (map (\<lambda>kv. PStr (fst kv)) kvs)"
| "py_iter (PStr s) = Inr (map (\<lambda>c. PStr [c]) s)"
| "py_iter v = Inl (TypeError ([CHR 0x27] @ type_name v @ [CHR 0x27] @ '' object is not iterable''))"

text \<open>\<^verbatim>\<open>d.get(k)\<close>: only a dictionary has the method.\<close>

fun py_get :: "pyval \<Rightarrow> string \<Rightarrow> pyerr + pyval" where
  "py_get (PDict kvs) k = Inr (case map_of kvs k of Some v \<Rightarrow> v | None \<Rightarrow> PNone)"
| "py_get v k = Inl (AttributeError ([CHR 0x27] @ type_name v @ [CHR 0x27] @ '' object has no attribute '' @ [CHR 0x27] @ ''get'' @ [CHR 0x27]))"

subsection \<open>Strings\<close>

definition is_upper :: "char \<Rightarrow> bool" where
  "is_upper c = (65 \<le> (of_char c :: nat) \<and> (of_char c :: nat) \<le> 90)"

definition lower_char :: "char \<Rightarrow> char" where
  "lower_char c = (if is_upper c then char_of ((of_char c :: nat) + 32) else c)"

text \<open>\<^verbatim>\<open>v.lower()\<close>: only a string has the method.\<close>

fun py_lower :: "pyval \<Rightarrow> pyerr + pyval" where
  "py_lower (PStr s) = Inr (PStr (map lower_char s))"
| "py_lower v = Inl (AttributeError ([CHR 0x27] @ type_name v @ [CHR 0x27] @ '' object has no attribute '' @ [CHR 0x27] @ ''lower'' @ [CHR 0x27]))"

definition is_digit :: "char \<Rightarrow> bool" where
  "is_digit c = (48 \<le> (of_char c :: nat) \<and> (of_char c :: nat) \<le> 57)"

definition digit_val :: "char \<Rightarrow> int" where
  "digit_val c = int (of_char c) - 48"

text \<open>
  \<^verbatim>\<open>int(s)\<close> for a string of decimal digits. Python integers are unbounded; the limit
  that an interpreter may be configured to put on the number of digits is left out.
\<close>

definition int_of_digits :: "string \<Rightarrow> int" where
  "int_of_digits ds = foldl (\<lambda>acc c. 10 * acc + digit_val c) 0 ds"

subsection \<open>Duration extraction\<close>

text \<open>
  \<^verbatim>\<open>re.search(r'(\d+)ms', message)\<close> tries the pattern at each position from the left.
  At one position the greedy \<^verbatim>\<open>\d+\<close> takes the whole run of digits there; giving a digit
  back never helps, since the character after a shorter run is a digit and not \<open>m\<close>. So the
  pattern matches at a position exactly when a non-empty run of digits starts there and
  \<open>ms\<close> follows the run; group 1 is the run.
\<close>

definition match_here :: "string \<Rightarrow> string option" where
  "match_here s =
     (let ds = takeWhile is_digit s
      in if ds \<noteq> [] \<and> take 2 (dropWhile is_digit s) = ''ms'' then Some ds else None)"

fun re_search :: "string \<Rightarrow> string option" where
  "re_search [] = None"
| "re_search (c # cs) =
     (case match_here (c # cs) of Some ds \<Rightarrow> Some ds | None \<Rightarrow> re_search cs)"

text \<open>Lines 129 and 130 on a string: the value of group 1, or 0 without a match.\<close>

definition search_duration :: "string \<Rightarrow> int" where
  "search_duration s = (case re_search s of Some ds \<Rightarrow> int_of_digits ds | None \<Rightarrow> 0)"

text \<open>\<^verbatim>\<open>re.search\<close> raises on a value that is not a string.\<close>

fun extract_duration :: "pyval \<Rightarrow> pyerr + int" where
  "extract_duration (PStr s) = Inr (search_duration s)"
| "extract_duration v = Inl (TypeError ''expected string or bytes-like object'')"

subsection \<open>True division of integers\<close>

text \<open>
  \<^verbatim>\<open>a / b\<close> on Python integers gives the double nearest to the quotient, ties going
  to the even significand, and raises \<open>OverflowError\<close> when that is beyond the range of a
  double. A double has a significand of 53 bits and a spacing of at least \<open>2^-1074\<close>.
\<close>

function bit_length :: "int \<Rightarrow> nat" where
  "bit_length n = (if n \<le> 0 then 0 else Suc (bit_length (n div 2)))"
  by pat_completeness auto
termination
  by (relation "measure nat") auto

declare bit_length.simps [simp del]

definition round_half_even :: "rat \<Rightarrow> int" where
  "round_half_even x =
     (let f = \<lfloor>x\<rfloor>; r = x - of_int f
      in if r < 1 / 2 then f else if 1 / 2 < r then f + 1 else if even f then f else f + 1)"

text \<open>For positive \<open>a\<close> and \<open>b\<close>, the \<open>e\<close> with \<open>2^e \<le> a / b < 2^(e + 1)\<close>.\<close>

definition quotient_exponent :: "int \<Rightarrow> int \<Rightarrow> int" where
  "quotient_exponent a b =
     (let d = int (bit_length a) - int (bit_length b)
      in if of_int b * power_int (2 :: rat) d \<le> of_int a then d else d - 1)"

text \<open>For positive \<open>a\<close> and \<open>b\<close>, the double nearest to \<open>a / b\<close>.\<close>

definition nearest_double :: "int \<Rightarrow> int \<Rightarrow> rat" where
  "nearest_double a b =
     (let sh = max (quotient_exponent a b) (- 1022) - 52
      in of_int (round_half_even (of_int a / (of_int b * power_int 2 sh))) * power_int 2 sh)"

definition py_truediv :: "int \<Rightarrow> int \<Rightarrow> pyerr + rat" where
  "py_truediv a b =
     (if b = 0 then Inl (ZeroDivisionError ''division by zero'')
      else if a = 0 then Inr 0
      else let q = nearest_double \<bar>a\<bar> \<bar>b\<bar>
           in if 2 ^ 1024 \<le> q then Inl (OverflowError ''integer division result too large for a float'')
              else Inr (if (a < 0) = (b < 0) then q else - q))"

subsection \<open>JSON text of a string\<close>

text \<open>
  \<^verbatim>\<open>json.dumps(s)\<close> for a string: the string in double quotes, with the quote, the
  backslash and every character outside the printable ASCII range escaped.
\<close>

definition hex_digit :: "nat \<Rightarrow> char" where
  "hex_digit n = ''0123456789abcdef'' ! (n mod 16)"

definition escape_char :: "char \<Rightarrow> string" where
  "escape_char c =
     (if c = CHR 0x22 then [CHR 0x5C, CHR 0x22]
      else if c = CHR 0x5C then [CHR 0x5C, CHR 0x5C]
      else if c = CHR 0x08 then [CHR 0x5C, CHR ''b'']
      else if c = CHR 0x0C then [CHR 0x5C, CHR ''f'']
      else if c = CHR 0x0A then [CHR 0x5C, CHR ''n'']
      else if c = CHR 0x0D then [CHR 0x5C, CHR ''r'']
      else if c = CHR 0x09 then [CHR 0x5C, CHR ''t'']
      else if 32 \<le> (of_char c :: nat) \<and> (of_char c :: nat) \<le> 126 then [c]
      else [CHR 0x5C, CHR ''u'', CHR ''0'', CHR ''0'',
            hex_digit ((of_char c :: nat) div 16), hex_digit (of_char c)])"

definition json_dumps_str :: "string \<Rightarrow> string" where
  "json_dumps_str s = [CHR 0x22] @ concat (map escape_char s) @ [CHR 0x22]"

subsection \<open>The environment and the trace of an invocation\<close>

text \<open>
  What the handler asks of the outside world. A request is recorded when the program
  issues it; the environment answers it with nothing (the call returns) or with the
  exception the client raises. The body of an object and the message of an alert are
  kept as the document that the source passes to \<^verbatim>\<open>json.dumps\<close>, which does not
  raise on a document built from parsed JSON, strings and integers; the metric's
  \<^verbatim>\<open>Timestamp\<close> is left out. Creating a client with \<^verbatim>\<open>boto3.client\<close> is taken to
  succeed.
\<close>

datatype request =
    PutMetricData string string pyval string
  | Publish string pyval string
  | PutObject string string pyval string

datatype extractor = Application | Security | Audit

text \<open>
  An invocation leaves a trace: the requests it issued, the extractors it entered, and
  the lines it printed, in order.
\<close>

datatype action = Enter extractor | Request request | Print string

text \<open>
  The parts of the run-time that are not in the source: the process environment, the
  clock (read as the date path \<^verbatim>\<open>%Y/%m/%d\<close> and as ISO text), the library functions
  \<^verbatim>\<open>base64.b64decode\<close>, \<^verbatim>\<open>gzip.decompress\<close>, \<^verbatim>\<open>json.loads\<close> (on bytes and on a string),
  \<^verbatim>\<open>str\<close> on a value that is not a string, and the AWS clients.
\<close>

record env =
  environ :: "string \<Rightarrow> string option"
  utc_date :: string
  utc_iso :: string
  b64decode :: "pyval \<Rightarrow> pyerr + string"
  gzip_decompress :: "string \<Rightarrow> pyerr + string"
  json_loads_bytes :: "string \<Rightarrow> pyerr + pyval"
  json_loads_str :: "string \<Rightarrow> pyerr + pyval"
  py_str :: "pyval \<Rightarrow> string"
  respond :: "request \<Rightarrow> pyerr option"

type_synonym 'a io = "action list \<times> (pyerr + 'a)"

definition lift :: "pyerr + 'a \<Rightarrow> 'a io" where
  "lift r = ([], r)"

definition io_then :: "'a io \<Rightarrow> ('a \<Rightarrow> 'b io) \<Rightarrow> 'b io" where
  "io_then m f =
     (case m of
        (tr, Inl e) \<Rightarrow> (tr, Inl e)
      | (tr, Inr x) \<Rightarrow> (case f x of (tr', r) \<Rightarrow> (tr @ tr', r)))"

definition perform :: "env \<Rightarrow> request \<Rightarrow> unit io" where
  "perform E rq =
     ([Request rq], case respond E rq of None \<Rightarrow> Inr () | Some e \<Rightarrow> Inl e)"

definition environ_item :: "env \<Rightarrow> string \<Rightarrow> pyerr + string" where
  "environ_item E k = (case environ E k of Some v \<Rightarrow> Inr v | None \<Rightarrow> Inl (KeyError k))"

text \<open>A value formatted into an f-string.\<close>

fun format_value :: "env \<Rightarrow> pyval \<Rightarrow> string" where
  "format_value E (PStr s) = s"
| "format_value E v = py_str E v"

subsection \<open>The sinks\<close>

definition send_custom_metric :: "env \<Rightarrow> string \<Rightarrow> pyval \<Rightarrow> string \<Rightarrow> unit io" where
  "send_custom_metric E metric_name val namespace =
     perform E (PutMetricData namespace metric_name val ''Count'')"

definition send_security_alert :: "env \<Rightarrow> pyval list \<Rightarrow> unit io" where
  "send_security_alert E activities =
     (let msg = PDict [(''alert_type'', PStr ''security''),
                       (''activities'', PList activities),
                       (''timestamp'', PStr (utc_iso E))]
      in io_then (lift (environ_item E ''SECURITY_ALERT_TOPIC_ARN''))
           (\<lambda>arn. perform E (Publish arn msg ''FHIR Bridge Security Alert'')))"

definition store_processed_logs :: "env \<Rightarrow> pyval \<Rightarrow> unit io" where
  "store_processed_logs E log_data =
     io_then (lift (environ_item E ''LOG_ANALYSIS_BUCKET''))
       (\<lambda>bucket. io_then (lift (subscr log_data ''logStream''))
          (\<lambda>log_stream.
             perform E
               (PutObject bucket
                  (''processed/'' @ utc_date E @ ''/'' @ format_value E log_stream @ ''.json'')
                  log_data ''application/json'')))"

definition store_audit_summary :: "env \<Rightarrow> pyval list \<Rightarrow> unit io" where
  "store_audit_summary E audit_events =
     io_then (lift (environ_item E ''LOG_ANALYSIS_BUCKET''))
       (\<lambda>bucket.
          perform E
            (PutObject bucket
               (''audit-summary/'' @ utc_date E @ ''/summary.json'')
               (PDict [(''date'', PStr (utc_iso E)),
                       (''total_events'', PInt (int (length audit_events))),
                       (''events'', PList audit_events)])
               ''application/json''))"

subsection \<open>The application extractor\<close>

record sample =
  timestamp :: pyval
  duration :: int
  message :: pyval

text \<open>The body of the inner \<^verbatim>\<open>try\<close>: the duration first, then the timestamp.\<close>

definition make_sample :: "pyval \<Rightarrow> pyval \<Rightarrow> pyerr + sample" where
  "make_sample ev msg =
     and_then (extract_duration msg)
       (\<lambda>d. and_then (subscr ev ''timestamp'')
          (\<lambda>t. Inr \<lparr>timestamp = t, duration = d, message = msg\<rparr>))"

text \<open>
  The loop over the events, with the two accumulators of the source. What the inner
  \<^verbatim>\<open>try\<close> raises is swallowed; what the rest of the body raises leaves the loop.
\<close>

fun app_loop :: "pyval list \<Rightarrow> int \<Rightarrow> sample list \<Rightarrow> pyerr + int \<times> sample list" where
  "app_loop [] error_count performance_metrics = Inr (error_count, performance_metrics)"
| "app_loop (ev # evs) error_count performance_metrics =
     and_then (subscr ev ''message'')
       (\<lambda>msg. and_then (contains ''ERROR'' msg)
          (\<lambda>is_error. and_then (contains ''Request completed'' msg)
             (\<lambda>is_request.
                app_loop evs
                  (if is_error then error_count + 1 else error_count)
                  (if is_request
                   then (case make_sample ev msg of
                           Inr s \<Rightarrow> performance_metrics @ [s]
                         | Inl e \<Rightarrow> performance_metrics)
                   else performance_metrics))))"

definition process_application_logs :: "env \<Rightarrow> pyval \<Rightarrow> unit io" where
  "process_application_logs E log_events =
     io_then ([Enter Application], Inr ())
       (\<lambda>_. io_then (lift (and_then (py_iter log_events) (\<lambda>evs. app_loop evs 0 [])))
          (\<lambda>(error_count, performance_metrics).
             io_then
               (if 0 < error_count
                then send_custom_metric E ''ApplicationErrors'' (PInt error_count)
                       ''FHIRBridge/Application''
                else lift (Inr ()))
               (\<lambda>_. if performance_metrics \<noteq> []
                    then io_then
                           (lift (py_truediv (sum_list (map duration performance_metrics))
                                    (int (length performance_metrics))))
                           (\<lambda>avg_duration.
                              send_custom_metric E ''AverageResponseTime'' (PFloat avg_duration)
                                ''FHIRBridge/Performance'')
                    else lift (Inr ()))))"

subsection \<open>The security extractor\<close>

text \<open>
  \<^verbatim>\<open>any(keyword in message.lower() for keyword in [...])\<close>: the keywords in order, the
  message lowered anew for each, stopping at the first that is found.
\<close>

fun any_keyword :: "pyval \<Rightarrow> string list \<Rightarrow> pyerr + bool" where
  "any_keyword msg [] = Inr False"
| "any_keyword msg (k # ks) =
     and_then (py_lower msg)
       (\<lambda>low. and_then (contains k low)
          (\<lambda>found. if found then Inr True else any_keyword msg ks))"

fun sec_loop :: "pyval list \<Rightarrow> int \<Rightarrow> pyval list \<Rightarrow> pyerr + int \<times> pyval list" where
  "sec_loop [] failed_auth_count suspicious_activities =
     Inr (failed_auth_count, suspicious_activities)"
| "sec_loop (ev # evs) failed_auth_count suspicious_activities =
     and_then (subscr ev ''message'')
       (\<lambda>msg. and_then (py_lower msg)
          (\<lambda>low. and_then (contains ''authentication failed'' low)
             (\<lambda>is_failed. and_then (any_keyword msg [''unauthorized'', ''forbidden'', ''blocked''])
                (\<lambda>is_suspicious.
                   and_then
                     (if is_suspicious
                      then and_then (subscr ev ''timestamp'')
                             (\<lambda>t. Inr (suspicious_activities
                                         @ [PDict [(''timestamp'', t), (''message'', msg)]]))
                      else Inr suspicious_activities)
                     (\<lambda>activities.
                        sec_loop evs
                          (if is_failed then failed_auth_count + 1 else failed_auth_count)
                          activities)))))"

definition process_security_logs :: "env \<Rightarrow> pyval \<Rightarrow> unit io" where
  "process_security_logs E log_events =
     io_then ([Enter Security], Inr ())
       (\<lambda>_. io_then (lift (and_then (py_iter log_events) (\<lambda>evs. sec_loop evs 0 [])))
          (\<lambda>(failed_auth_count, suspicious_activities).
             io_then
               (if 0 < failed_auth_count
                then send_custom_metric E ''FailedAuthentications'' (PInt failed_auth_count)
                       ''FHIRBridge/Security''
                else lift (Inr ()))
               (\<lambda>_. if suspicious_activities \<noteq> []
                    then send_security_alert E suspicious_activities
                    else lift (Inr ()))))"

subsection \<open>The audit extractor\<close>

text \<open>\<^verbatim>\<open>json.loads(v)\<close> on a value of the batch: only a string is parsed.\<close>

fun py_json_loads :: "env \<Rightarrow> pyval \<Rightarrow> pyerr + pyval" where
  "py_json_loads E (PStr s) = json_loads_str E s"
| "py_json_loads E v =
     Inl (TypeError (''the JSON object must be str, bytes or bytearray, not '' @ type_name v))"

text \<open>The body of the \<^verbatim>\<open>try\<close>, in the order the source evaluates it.\<close>

definition audit_entry :: "env \<Rightarrow> pyval \<Rightarrow> pyerr + pyval" where
  "audit_entry E ev =
     and_then (subscr ev ''message'')
       (\<lambda>msg. and_then (py_json_loads E msg)
          (\<lambda>audit_data. and_then (subscr ev ''timestamp'')
             (\<lambda>t. and_then (py_get audit_data ''userId'')
                (\<lambda>user_id. and_then (py_get audit_data ''action'')
                   (\<lambda>act. and_then (py_get audit_data ''resourceType'')
                      (\<lambda>resource_type. and_then (py_get audit_data ''resourceId'')
                         (\<lambda>resource_id. and_then (py_get audit_data ''outcome'')
                            (\<lambda>outcome.
                               Inr (PDict [(''timestamp'', t),
                                           (''userId'', user_id),
                                           (''action'', act),
                                           (''resourceType'', resource_type),
                                           (''resourceId'', resource_id),
                                           (''outcome'', outcome)])))))))))"

fun audit_loop :: "env \<Rightarrow> pyval list \<Rightarrow> pyval list \<Rightarrow> pyval list" where
  "audit_loop E [] audit_events = audit_events"
| "audit_loop E (ev # evs) audit_events =
     audit_loop E evs
       (case audit_entry E ev of
          Inr entry \<Rightarrow> audit_events @ [entry]
        | Inl e \<Rightarrow> audit_events)"

definition process_audit_logs :: "env \<Rightarrow> pyval \<Rightarrow> unit io" where
  "process_audit_logs E log_events =
     io_then ([Enter Audit], Inr ())
       (\<lambda>_. io_then (lift (py_iter log_events))
          (\<lambda>evs. let audit_events = audit_loop E evs []
                 in if audit_events \<noteq> []
                    then store_audit_summary E audit_events
                    else lift (Inr ())))"

subsection \<open>The handler\<close>

text \<open>Lines 17 to 19: the payload out of the event, decoded, decompressed and parsed.\<close>

definition decode :: "env \<Rightarrow> pyval \<Rightarrow> pyerr + pyval" where
  "decode E event =
     and_then (subscr event ''awslogs'')
       (\<lambda>awslogs. and_then (subscr awslogs ''data'')
          (\<lambda>data. and_then (b64decode E data)
             (\<lambda>compressed_payload. and_then (gzip_decompress E compressed_payload)
                (\<lambda>uncompressed_payload. json_loads_bytes E uncompressed_payload))))"

text \<open>Lines 26 to 31: the chain of tests on the log group.\<close>

definition dispatch :: "env \<Rightarrow> pyval \<Rightarrow> pyval \<Rightarrow> unit io" where
  "dispatch E log_group log_events =
     io_then (lift (contains ''application'' log_group))
       (\<lambda>is_application.
          if is_application then process_application_logs E log_events
          else io_then (lift (contains ''security'' log_group))
                 (\<lambda>is_security.
                    if is_security then process_security_logs E log_events
                    else io_then (lift (contains ''audit'' log_group))
                           (\<lambda>is_audit.
                              if is_audit then process_audit_logs E log_events
                              else lift (Inr ()))))"

text \<open>The body of the handler's \<^verbatim>\<open>try\<close>, up to the \<^verbatim>\<open>return\<close>.\<close>

definition try_body :: "env \<Rightarrow> pyval \<Rightarrow> unit io" where
  "try_body E event =
     io_then (lift (decode E event))
       (\<lambda>log_data. io_then (lift (subscr log_data ''logGroup''))
          (\<lambda>log_group. io_then (lift (subscr log_data ''logStream''))
             (\<lambda>log_stream. io_then (lift (subscr log_data ''logEvents''))
                (\<lambda>log_events. io_then (dispatch E log_group log_events)
                   (\<lambda>_. store_processed_logs E log_data)))))"

record response =
  statusCode :: int
  body :: string

definition handler :: "env \<Rightarrow> pyval \<Rightarrow> action list \<times> response" where
  "handler E event =
     (case try_body E event of
        (tr, Inr _) \<Rightarrow>
          (tr, \<lparr>statusCode = 200,
                body = json_dumps_str ''Log processing completed successfully''\<rparr>)
      | (tr, Inl e) \<Rightarrow>
          (tr @ [Print (''Error processing logs: '' @ exn_str e)],
           \<lparr>statusCode = 500,
             body = json_dumps_str (''Error processing logs: '' @ exn_str e)\<rparr>))"

subsection \<open>Reading a trace\<close>

fun entered :: "action list \<Rightarrow> extractor list" where
  "entered [] = []"
| "entered (Enter x # tr) = x # entered tr"
| "entered (a # tr) = entered tr"

fun requests :: "action list \<Rightarrow> request list" where
  "requests [] = []"
| "requests (Request rq # tr) = rq # requests tr"
| "requests (a # tr) = requests tr"

text \<open>Every request of the trace was answered without an exception.\<close>

definition requests_ok :: "env \<Rightarrow> action list \<Rightarrow> bool" where
  "requests_ok E tr = list_all (\<lambda>rq. respond E rq = None) (requests tr)"

subsection \<open>A stub environment\<close>

text \<open>
  An environment for running the handler on concrete batches: the payload decodes to a
  given batch, \<^verbatim>\<open>json.loads\<close> on a message is a table of parsed texts, both
  configuration variables are set, and a given set of requests is refused.
\<close>

definition stub_b64decode :: "pyval \<Rightarrow> pyerr + string" where
  "stub_b64decode v =
     (case v of PStr s \<Rightarrow> Inr s
      | _ \<Rightarrow> Inl (TypeError ''argument should be a bytes-like object or ASCII string''))"

definition stub_json_loads :: "(string \<times> pyval) list \<Rightarrow> string \<Rightarrow> pyerr + pyval" where
  "stub_json_loads table s =
     (case map_of table s of Some v \<Rightarrow> Inr v
      | None \<Rightarrow> Inl (ClientError ''Expecting value: line 1 column 1 (char 0)''))"

definition stub_respond :: "request list \<Rightarrow> request \<Rightarrow> pyerr option" where
  "stub_respond refused rq =
     (if rq \<in> set refused then Some (ClientError ''An error occurred (AccessDenied)'')
      else None)"

definition stub_json_table :: "(string \<times> pyval) list" where
  "stub_json_table =
     [([CHR 0x7B, CHR 0x22] @ ''userId'' @ [CHR 0x22] @ '': '' @ [CHR 0x22] @ ''u1''
         @ [CHR 0x22, CHR 0x7D],
       PDict [(''userId'', PStr ''u1'')]),
      (''[1, 2]'', PList [PInt 1, PInt 2])]"

definition stub_env :: "pyval \<Rightarrow> request list \<Rightarrow> env" where
  "stub_env batch refused =
     \<lparr>environ = map_of [(''LOG_ANALYSIS_BUCKET'', ''log-bucket''),
                        (''SECURITY_ALERT_TOPIC_ARN'', ''arn:aws:sns:topic'')],
      utc_date = ''2024/05/17'',
      utc_iso = ''2024-05-17T08:00:00'',
      b64decode = stub_b64decode,
      gzip_decompress = Inr,
      json_loads_bytes = (\<lambda>s. Inr batch),
      json_loads_str = stub_json_loads stub_json_table,
      py_str = (\<lambda>v. ''?''),
      respond = stub_respond refused\<rparr>"

definition stub_event :: pyval where
  "stub_event = PDict [(''awslogs'', PDict [(''data'', PStr ''H4sIAAAAAAAA'')])]"

definition stub_batch :: "string \<Rightarrow> pyval list \<Rightarrow> pyval" where
  "stub_batch g evs =
     PDict [(''logGroup'', PStr g), (''logStream'', PStr ''stream-1''), (''logEvents'', PList evs)]"

definition log_record :: "int \<Rightarrow> string \<Rightarrow> pyval" where
  "log_record t m = PDict [(''timestamp'', PInt t), (''message'', PStr m)]"

text \<open>
  The invariant of a computation: when it returns, every request it issued was answered
  without an exception.
\<close>

definition io_ok :: "env \<Rightarrow> 'a io \<Rightarrow> bool" where
  "io_ok E m = (case snd m of Inr x \<Rightarrow> requests_ok E (fst m) | Inl e \<Rightarrow> True)"

named_theorems io_ok_intros

text \<open>A batch with one error in it, and the request that stores it.\<close>

definition error_records :: "pyval list" where
  "error_records = [log_record 1 ''ERROR boom'', log_record 2 ''INFO ok'']"

definition error_batch :: pyval where
  "error_batch = stub_batch ''application'' error_records"

definition store_error_batch :: request where
  "store_error_batch =
     PutObject ''log-bucket'' ''processed/2024/05/17/stream-1.json'' error_batch ''application/json''"

text \<open>The batch of the end-to-end scenario of the specification.\<close>

definition scenario_batch :: pyval where
  "scenario_batch =
     stub_batch ''my-app-application-logs''
       [log_record 1 ''INFO start'',
        log_record 2 ''ERROR boom'',
        log_record 3 ''Request completed in 100ms'']"

subsection \<open>Well-formed records\<close>

text \<open>
  A log record is a dictionary whose \<open>message\<close> is a string and which has a
  \<open>timestamp\<close>; it may have other keys.
\<close>

fun message_of :: "pyval \<Rightarrow> string option" where
  "message_of (PDict kvs) =
     (case map_of kvs ''message'' of Some (PStr m) \<Rightarrow> Some m | _ \<Rightarrow> None)"
| "message_of v = None"

fun timestamp_of :: "pyval \<Rightarrow> pyval option" where
  "timestamp_of (PDict kvs) = map_of kvs ''timestamp''"
| "timestamp_of v = None"

definition well_formed :: "pyval \<Rightarrow> bool" where
  "well_formed ev = (message_of ev \<noteq> None \<and> timestamp_of ev \<noteq> None)"


text \<open>The requests of a trace that put a metric of a given name.\<close>

fun is_metric :: "string \<Rightarrow> request \<Rightarrow> bool" where
  "is_metric name (PutMetricData ns name' v u) = (name' = name)"
| "is_metric name rq = False"

definition metrics_named :: "string \<Rightarrow> action list \<Rightarrow> request list" where
  "metrics_named name tr = filter (is_metric name) (requests tr)"

text \<open>A batch with one record that is not a request and two that are.\<close>

definition request_records :: "pyval list" where
  "request_records =
     [log_record 1 ''INFO start'',
      log_record 2 ''Request completed in 42ms'',
      log_record 3 ''Request completed'']"

subsection \<open>The average of the durations, in the words of the specification\<close>








subsection \<open>Containment in any letter case, in the words of the specification\<close>

text \<open>Two characters are the same letter when they are equal or differ only in case.\<close>

definition same_letter :: "char \<Rightarrow> char \<Rightarrow> bool" where
  "same_letter c d =
     (c = d
      \<or> (is_upper c \<and> (of_char d :: nat) = of_char c + 32)
      \<or> (is_upper d \<and> (of_char c :: nat) = of_char d + 32))"

text \<open>The message contains the phrase, letter for letter, in some mix of cases.\<close>

definition ci_contains :: "string \<Rightarrow> string \<Rightarrow> bool" where
  "ci_contains phrase m = list_ex (\<lambda>u. list_all2 same_letter u phrase) (sublists m)"

definition auth_failed :: "pyval \<Rightarrow> bool" where
  "auth_failed ev = ci_contains ''authentication failed'' (the (message_of ev))"

definition suspicious :: "pyval \<Rightarrow> bool" where
  "suspicious ev =
     (ci_contains ''unauthorized'' (the (message_of ev))
      \<or> ci_contains ''forbidden'' (the (message_of ev))
      \<or> ci_contains ''blocked'' (the (message_of ev)))"

definition activity :: "pyval \<Rightarrow> pyval" where
  "activity ev =
     PDict [(''timestamp'', the (timestamp_of ev)), (''message'', PStr (the (message_of ev)))]"

definition security_records :: "pyval list" where
  "security_records =
     [log_record 1 ''Authentication Failed: bad password'',
      log_record 2 ''UNAUTHORIZED: authentication failed for bob'',
      log_record 3 ''INFO ok'']"

subsection \<open>Audit events, in the words of the specification\<close>





subsection \<open>The extractors over an object store\<close>

text \<open>
  The batch and its records are objects, which a Python program can change in place. To
  state that the extractors do not, their loops are given a second time over an explicit
  store. An address is a position in the store. A list object holds the addresses of its
  items; a dictionary object holds its items, whose values are immutable values here. A
  new object goes to the end of the store, and \<^verbatim>\<open>append\<close> changes a list object in
  place. An address that a list object holds is taken to be an address of the store.
\<close>

datatype hobj = HList "nat list" | HDict "(string \<times> pyval) list"

type_synonym store = "hobj list"

definition alloc :: "store \<Rightarrow> hobj \<Rightarrow> nat \<times> store" where
  "alloc h ob = (length h, h @ [ob])"

text \<open>\<^verbatim>\<open>l.append(x)\<close> for the list object at address \<open>a\<close> and the object at address \<open>r\<close>.\<close>

definition list_append :: "store \<Rightarrow> nat \<Rightarrow> nat \<Rightarrow> store" where
  "list_append h a r =
     (if a < length h
      then (case h ! a of HList rs \<Rightarrow> h[a := HList (rs @ [r])] | HDict kvs \<Rightarrow> h)
      else h)"

text \<open>\<^verbatim>\<open>event[k]\<close> for an object.\<close>

fun obj_subscr :: "hobj \<Rightarrow> string \<Rightarrow> pyerr + pyval" where
  "obj_subscr (HDict kvs) k =
     (case map_of kvs k of Some v \<Rightarrow> Inr v | None \<Rightarrow> Inl (KeyError k))"
| "obj_subscr (HList rs) k =
     Inl (TypeError ''list indices must be integers or slices, not str'')"

text \<open>
  The objects that the loop \<^verbatim>\<open>for event in log_events\<close> visits. Over a dictionary
  object the loop visits the keys, which are strings: the first \<^verbatim>\<open>event['message']\<close>
  raises.
\<close>

fun h_events :: "hobj \<Rightarrow> pyerr + nat list" where
  "h_events (HList rs) = Inr rs"
| "h_events (HDict kvs) =
     (if kvs = [] then Inr [] else Inl (TypeError ''string indices must be integers''))"

definition h_make_sample :: "hobj \<Rightarrow> pyval \<Rightarrow> pyerr + hobj" where
  "h_make_sample ev msg =
     and_then (extract_duration msg)
       (\<lambda>d. and_then (obj_subscr ev ''timestamp'')
          (\<lambda>t. Inr (HDict [(''timestamp'', t), (''duration'', PInt d), (''message'', msg)])))"

fun h_app_loop :: "store \<Rightarrow> nat list \<Rightarrow> int \<Rightarrow> nat \<Rightarrow> pyerr + int \<times> store" where
  "h_app_loop h [] error_count performance_metrics = Inr (error_count, h)"
| "h_app_loop h (r # rs) error_count performance_metrics =
     and_then (obj_subscr (h ! r) ''message'')
       (\<lambda>msg. and_then (contains ''ERROR'' msg)
          (\<lambda>is_error. and_then (contains ''Request completed'' msg)
             (\<lambda>is_request.
                h_app_loop
                  (if is_request
                   then (case h_make_sample (h ! r) msg of
                           Inr ob \<Rightarrow>
                             (case alloc h ob of
                                (a, h') \<Rightarrow> list_append h' performance_metrics a)
                         | Inl e \<Rightarrow> h)
                   else h)
                  rs
                  (if is_error then error_count + 1 else error_count)
                  performance_metrics)))"

text \<open>
  Lines 50 to 71: the count, the address of the list of samples, and the store after
  the loop.
\<close>

definition h_app_extract :: "store \<Rightarrow> nat \<Rightarrow> pyerr + int \<times> nat \<times> store" where
  "h_app_extract h log_events =
     (case alloc h (HList []) of
        (performance_metrics, h1) \<Rightarrow>
          and_then (h_events (h1 ! log_events))
            (\<lambda>rs. and_then (h_app_loop h1 rs 0 performance_metrics)
               (\<lambda>(error_count, h2). Inr (error_count, performance_metrics, h2))))"

fun h_sec_loop :: "store \<Rightarrow> nat list \<Rightarrow> int \<Rightarrow> nat \<Rightarrow> pyerr + int \<times> store" where
  "h_sec_loop h [] failed_auth_count suspicious_activities = Inr (failed_auth_count, h)"
| "h_sec_loop h (r # rs) failed_auth_count suspicious_activities =
     and_then (obj_subscr (h ! r) ''message'')
       (\<lambda>msg. and_then (py_lower msg)
          (\<lambda>low. and_then (contains ''authentication failed'' low)
             (\<lambda>is_failed. and_then (any_keyword msg [''unauthorized'', ''forbidden'', ''blocked''])
                (\<lambda>is_suspicious.
                   and_then
                     (if is_suspicious
                      then and_then (obj_subscr (h ! r) ''timestamp'')
                             (\<lambda>t. Inr (case alloc h (HDict [(''timestamp'', t), (''message'', msg)]) of
                                         (a, h') \<Rightarrow> list_append h' suspicious_activities a))
                      else Inr h)
                     (\<lambda>h'. h_sec_loop h' rs
                             (if is_failed then failed_auth_count + 1 else failed_auth_count)
                             suspicious_activities)))))"

text \<open>Lines 83 to 96.\<close>

definition h_sec_extract :: "store \<Rightarrow> nat \<Rightarrow> pyerr + int \<times> nat \<times> store" where
  "h_sec_extract h log_events =
     (case alloc h (HList []) of
        (suspicious_activities, h1) \<Rightarrow>
          and_then (h_events (h1 ! log_events))
            (\<lambda>rs. and_then (h_sec_loop h1 rs 0 suspicious_activities)
               (\<lambda>(failed_auth_count, h2). Inr (failed_auth_count, suspicious_activities, h2))))"

definition h_audit_entry :: "env \<Rightarrow> hobj \<Rightarrow> pyerr + hobj" where
  "h_audit_entry E ev =
     and_then (obj_subscr ev ''message'')
       (\<lambda>msg. and_then (py_json_loads E msg)
          (\<lambda>audit_data. and_then (obj_subscr ev ''timestamp'')
             (\<lambda>t. and_then (py_get audit_data ''userId'')
                (\<lambda>user_id. and_then (py_get audit_data ''action'')
                   (\<lambda>act. and_then (py_get audit_data ''resourceType'')
                      (\<lambda>resource_type. and_then (py_get audit_data ''resourceId'')
                         (\<lambda>resource_id. and_then (py_get audit_data ''outcome'')
                            (\<lambda>outcome.
                               Inr (HDict [(''timestamp'', t),
                                           (''userId'', user_id),
                                           (''action'', act),
                                           (''resourceType'', resource_type),
                                           (''resourceId'', resource_id),
                                           (''outcome'', outcome)])))))))))"

fun h_audit_loop :: "env \<Rightarrow> store \<Rightarrow> nat list \<Rightarrow> nat \<Rightarrow> store" where
  "h_audit_loop E h [] audit_events = h"
| "h_audit_loop E h (r # rs) audit_events =
     h_audit_loop E
       (case h_audit_entry E (h ! r) of
          Inr ob \<Rightarrow> (case alloc h ob of (a, h') \<Rightarrow> list_append h' audit_events a)
        | Inl e \<Rightarrow> h)
       rs audit_events"

text \<open>
  Lines 107 to 121. Over a dictionary object the loop visits the keys; each raises
  inside the \<^verbatim>\<open>try\<close> and is dropped.
\<close>

definition h_audit_extract :: "env \<Rightarrow> store \<Rightarrow> nat \<Rightarrow> nat \<times> store" where
  "h_audit_extract E h log_events =
     (case alloc h (HList []) of
        (audit_events, h1) \<Rightarrow>
          (case h1 ! log_events of
             HList rs \<Rightarrow> (audit_events, h_audit_loop E h1 rs audit_events)
           | HDict kvs \<Rightarrow> (audit_events, h1)))"

text \<open>The objects that a list object holds, in order.\<close>

definition read_list :: "store \<Rightarrow> nat \<Rightarrow> hobj list" where
  "read_list h a = (case h ! a of HList rs \<Rightarrow> map ((!) h) rs | HDict kvs \<Rightarrow> [])"

text \<open>
  The batch at \<open>log_events\<close> is well placed in the store: the address is one of the
  store, and so are the addresses that the object there holds.
\<close>

definition batch_in_store :: "store \<Rightarrow> nat \<Rightarrow> bool" where
  "batch_in_store h log_events =
     (log_events < length h
      \<and> (case h ! log_events of
           HList rs \<Rightarrow> list_all (\<lambda>r. r < length h) rs
         | HDict kvs \<Rightarrow> True))"

text \<open>
  The reading of an object as a value of the first embedding, for a record; and the
  objects that the first embedding's samples and entries are stored as.
\<close>

fun event_of :: "hobj \<Rightarrow> pyval" where
  "event_of (HDict kvs) = PDict kvs"
| "event_of (HList rs) = PList []"

definition sample_obj :: "sample \<Rightarrow> hobj" where
  "sample_obj s =
     HDict [(''timestamp'', timestamp s), (''duration'', PInt (duration s)),
            (''message'', message s)]"

fun entry_obj :: "pyval \<Rightarrow> hobj" where
  "entry_obj (PDict kvs) = HDict kvs"
| "entry_obj v = HDict []"

text \<open>Storing new objects one after the other, each appended to the list at \<open>a\<close>.\<close>

definition push_all :: "store \<Rightarrow> nat \<Rightarrow> hobj list \<Rightarrow> store" where
  "push_all h a obs =
     foldl (\<lambda>h ob. case alloc h ob of (r, h') \<Rightarrow> list_append h' a r) h obs"

text \<open>
  What one pass of the security loop finds in a record: the outcome of the first test,
  and the entries it adds.
\<close>

definition sec_step :: "pyval \<Rightarrow> pyerr + bool \<times> pyval list" where
  "sec_step ev =
     and_then (subscr ev ''message'')
       (\<lambda>msg. and_then (py_lower msg)
          (\<lambda>low. and_then (contains ''authentication failed'' low)
             (\<lambda>is_failed. and_then (any_keyword msg [''unauthorized'', ''forbidden'', ''blocked''])
                (\<lambda>is_suspicious.
                   and_then
                     (if is_suspicious
                      then and_then (subscr ev ''timestamp'')
                             (\<lambda>t. Inr [PDict [(''timestamp'', t), (''message'', msg)]])
                      else Inr [])
                     (\<lambda>new. Inr (is_failed, new))))))"

text \<open>
  The store after an extraction that stored the objects \<open>obs\<close>: the store before, the new
  list object, which holds the addresses of the objects, and the objects.
\<close>

definition extended :: "store \<Rightarrow> hobj list \<Rightarrow> store" where
  "extended h obs = h @ HList [Suc (length h) ..< Suc (length h) + length obs] # obs"

text \<open>
  A store with two records and the batch that holds them, and the same store after the
  application extractor has run on that batch.
\<close>

definition two_record_store :: store where
  "two_record_store =
     [HDict [(''timestamp'', PInt 1), (''message'', PStr ''ERROR boom'')],
      HDict [(''timestamp'', PInt 2), (''message'', PStr ''Request completed in 42ms'')],
      HList [0, 1]]"

definition two_record_store_after :: store where
  "two_record_store_after =
     two_record_store
       @ [HList [4],
          HDict [(''timestamp'', PInt 2), (''duration'', PInt 42),
                 (''message'', PStr ''Request completed in 42ms'')]]"

section \<open>Traces\<close>

lemma entered_append [simp]: "entered (xs @ ys) = entered xs @ entered ys"
  by (induction xs rule: entered.induct) simp_all

lemma requests_append [simp]: "requests (xs @ ys) = requests xs @ requests ys"
  by (induction xs rule: requests.induct) simp_all

lemma io_then_lift [simp]:
  "io_then (lift r) f = (case r of Inl e \<Rightarrow> ([], Inl e) | Inr x \<Rightarrow> f x)"
  by (cases r; cases "f (projr r)") (simp_all add: io_then_def lift_def)

lemma io_then_Inl [simp]: "io_then (tr, Inl e) f = (tr, Inl e)"
  by (simp add: io_then_def)

lemma io_then_Inr [simp]: "io_then (tr, Inr x) f = (tr @ fst (f x), snd (f x))"
  by (simp add: io_then_def split: prod.splits)

lemma fst_io_then:
  "fst (io_then m f) = fst m @ (case snd m of Inl e \<Rightarrow> [] | Inr x \<Rightarrow> fst (f x))"
  by (cases m; cases "snd m") simp_all

lemma snd_io_then:
  "snd (io_then m f) = (case snd m of Inl e \<Rightarrow> Inl e | Inr x \<Rightarrow> snd (f x))"
  by (cases m; cases "snd m") simp_all

lemma perform_simps [simp]:
  "fst (perform E rq) = [Request rq]"
  "snd (perform E rq) = (case respond E rq of None \<Rightarrow> Inr () | Some e \<Rightarrow> Inl e)"
  by (simp_all add: perform_def)

lemma lift_simps [simp]: "fst (lift r) = []" "snd (lift r) = r"
  by (simp_all add: lift_def)

lemma entered_send_custom_metric [simp]: "entered (fst (send_custom_metric E n v ns)) = []"
  by (simp add: send_custom_metric_def)

lemma entered_send_security_alert [simp]: "entered (fst (send_security_alert E acts)) = []"
  by (simp add: send_security_alert_def Let_def split: sum.splits)

lemma entered_store_audit_summary [simp]: "entered (fst (store_audit_summary E evs)) = []"
  by (simp add: store_audit_summary_def split: sum.splits)

lemma entered_store_processed_logs [simp]: "entered (fst (store_processed_logs E d)) = []"
  by (simp add: store_processed_logs_def split: sum.splits)

lemma entered_process_application_logs [simp]:
  "entered (fst (process_application_logs E le)) = [Application]"
  by (simp add: process_application_logs_def fst_io_then split: sum.splits prod.splits)

lemma entered_process_security_logs [simp]:
  "entered (fst (process_security_logs E le)) = [Security]"
  by (simp add: process_security_logs_def fst_io_then split: sum.splits prod.splits)

lemma entered_process_audit_logs [simp]:
  "entered (fst (process_audit_logs E le)) = [Audit]"
  by (simp add: process_audit_logs_def fst_io_then Let_def split: sum.splits prod.splits)

lemma entered_dispatch:
  "entered (fst (dispatch E (PStr g) le)) =
     (if sublist ''application'' g then [Application]
      else if sublist ''security'' g then [Security]
      else if sublist ''audit'' g then [Audit]
      else [])"
  by (simp add: dispatch_def)

lemma entered_handler:
  "entered (fst (handler E event)) = entered (fst (try_body E event))"
  by (simp add: handler_def split: prod.splits sum.splits)

section \<open>The handler on a decoded batch\<close>

lemma try_body_decoded:
  assumes "decode E event = Inr log_data"
    and "subscr log_data ''logGroup'' = Inr log_group"
    and "subscr log_data ''logStream'' = Inr log_stream"
    and "subscr log_data ''logEvents'' = Inr log_events"
  shows "try_body E event =
           io_then (dispatch E log_group log_events) (\<lambda>_. store_processed_logs E log_data)"
  using assms by (simp add: try_body_def)

lemma decode_stub [simp]: "decode (stub_env batch refused) stub_event = Inr batch"
  by (simp add: decode_def stub_env_def stub_event_def stub_b64decode_def)

lemma subscr_stub_batch [simp]:
  "subscr (stub_batch g evs) ''logGroup'' = Inr (PStr g)"
  "subscr (stub_batch g evs) ''logStream'' = Inr (PStr ''stream-1'')"
  "subscr (stub_batch g evs) ''logEvents'' = Inr (PList evs)"
  by (simp_all add: stub_batch_def)

text \<open>
  The end-to-end scenario of the specification: one error metric with value 1, one
  average with value 100, the batch stored, and status 200.
\<close>

lemma end_to_end_scenario:
  "handler (stub_env scenario_batch []) stub_event =
     ([Enter Application,
       Request (PutMetricData ''FHIRBridge/Application'' ''ApplicationErrors'' (PInt 1) ''Count''),
       Request (PutMetricData ''FHIRBridge/Performance'' ''AverageResponseTime'' (PFloat 100)
                  ''Count''),
       Request (PutObject ''log-bucket'' ''processed/2024/05/17/stream-1.json'' scenario_batch
                  ''application/json'')],
      \<lparr>statusCode = 200, body = json_dumps_str ''Log processing completed successfully''\<rparr>)"
  by code_simp

section \<open>A run that returns answered every request\<close>

lemma requests_ok_append [simp]:
  "requests_ok E (xs @ ys) = (requests_ok E xs \<and> requests_ok E ys)"
  by (simp add: requests_ok_def)

lemma io_ok_then [io_ok_intros]:
  assumes "io_ok E m" and "\<And>x. io_ok E (f x)"
  shows "io_ok E (io_then m f)"
proof (cases m)
  case (Pair tr r)
  show ?thesis
  proof (cases r)
    case (Inl e)
    with Pair show ?thesis by (simp add: io_ok_def)
  next
    case (Inr x)
    with Pair assms(1) assms(2) [of x] show ?thesis
      by (cases "f x") (auto simp: io_ok_def split: sum.splits)
  qed
qed

lemma io_ok_if [io_ok_intros]:
  "io_ok E a \<Longrightarrow> io_ok E b \<Longrightarrow> io_ok E (if c then a else b)"
  by simp

lemma io_ok_case_prod [io_ok_intros]:
  "(\<And>a b. io_ok E (f a b)) \<Longrightarrow> io_ok E (case p of (a, b) \<Rightarrow> f a b)"
  by (cases p) simp

lemma io_ok_lift [io_ok_intros]: "io_ok E (lift r)"
  by (simp add: io_ok_def requests_ok_def split: sum.splits)

lemma io_ok_enter [io_ok_intros]: "io_ok E ([Enter x], Inr u)"
  by (simp add: io_ok_def requests_ok_def)

lemma io_ok_perform [io_ok_intros]: "io_ok E (perform E rq)"
  by (simp add: io_ok_def requests_ok_def split: sum.splits option.splits)

lemma io_ok_send_custom_metric [io_ok_intros]: "io_ok E (send_custom_metric E n v ns)"
  unfolding send_custom_metric_def by (intro io_ok_intros)

lemma io_ok_send_security_alert [io_ok_intros]: "io_ok E (send_security_alert E acts)"
  unfolding send_security_alert_def Let_def by (intro io_ok_intros)

lemma io_ok_store_audit_summary [io_ok_intros]: "io_ok E (store_audit_summary E evs)"
  unfolding store_audit_summary_def by (intro io_ok_intros)

lemma io_ok_store_processed_logs [io_ok_intros]: "io_ok E (store_processed_logs E d)"
  unfolding store_processed_logs_def by (intro io_ok_intros)

lemma io_ok_process_application_logs [io_ok_intros]:
  "io_ok E (process_application_logs E le)"
  unfolding process_application_logs_def by (intro io_ok_intros)

lemma io_ok_process_security_logs [io_ok_intros]: "io_ok E (process_security_logs E le)"
  unfolding process_security_logs_def by (intro io_ok_intros)

lemma io_ok_process_audit_logs [io_ok_intros]: "io_ok E (process_audit_logs E le)"
  unfolding process_audit_logs_def Let_def by (intro io_ok_intros)

lemma io_ok_dispatch [io_ok_intros]: "io_ok E (dispatch E lg le)"
  unfolding dispatch_def by (intro io_ok_intros)

lemma io_ok_try_body: "io_ok E (try_body E event)"
  unfolding try_body_def by (intro io_ok_intros)

lemma try_body_returns_iff:
  "(\<exists>u. snd (try_body E event) = Inr u) =
     (\<exists>log_data log_group log_stream log_events.
        decode E event = Inr log_data
        \<and> subscr log_data ''logGroup'' = Inr log_group
        \<and> subscr log_data ''logStream'' = Inr log_stream
        \<and> subscr log_data ''logEvents'' = Inr log_events
        \<and> snd (dispatch E log_group log_events) = Inr ()
        \<and> snd (store_processed_logs E log_data) = Inr ())"
  by (auto simp: try_body_def snd_io_then split: sum.splits)

section \<open>The category classifier (C1)\<close>

lemma sublist_all_three:
  "sublist ''application'' ''audit-security-application''"
  by code_simp

text \<open>
  Claim C1. On a decoded batch whose log group is a string, the handler tests the group
  for the substrings \<open>application\<close>, \<open>security\<close> and \<open>audit\<close> in this order, by
  case-sensitive containment, and enters the extractor of the first that is found and
  no other: a group that contains several of them goes to the one tested first, and a
  group that contains none enters no extractor.
\<close>

theorem classifier_order:
  assumes "decode E event = Inr log_data"
    and "subscr log_data ''logGroup'' = Inr (PStr g)"
    and "subscr log_data ''logStream'' = Inr log_stream"
    and "subscr log_data ''logEvents'' = Inr log_events"
  shows "entered (fst (handler E event)) =
           (if sublist ''application'' g then [Application]
            else if sublist ''security'' g then [Security]
            else if sublist ''audit'' g then [Audit]
            else [])"
proof -
  have "entered (fst (handler E event)) = entered (fst (dispatch E (PStr g) log_events))"
    by (simp add: entered_handler try_body_decoded [OF assms] fst_io_then split: sum.splits)
  then show ?thesis
    by (simp only: entered_dispatch)
qed

theorem classifier_order_witness:
  "decode (stub_env (stub_batch ''audit-security-application'' []) []) stub_event
     = Inr (stub_batch ''audit-security-application'' [])
   \<and> subscr (stub_batch ''audit-security-application'' []) ''logGroup''
     = Inr (PStr ''audit-security-application'')
   \<and> subscr (stub_batch ''audit-security-application'' []) ''logStream'' = Inr (PStr ''stream-1'')
   \<and> subscr (stub_batch ''audit-security-application'' []) ''logEvents'' = Inr (PList [])
   \<and> entered (fst (handler (stub_env (stub_batch ''audit-security-application'' []) [])
                        stub_event))
     = [Application]"
  using classifier_order
          [OF decode_stub subscr_stub_batch, of "''audit-security-application''" "[]" "[]"]
  by (simp add: sublist_all_three)

section \<open>The response of the handler (C2)\<close>

lemma run_error_batch:
  "try_body (stub_env error_batch []) stub_event =
     ([Enter Application,
       Request (PutMetricData ''FHIRBridge/Application'' ''ApplicationErrors'' (PInt 1) ''Count''),
       Request store_error_batch], Inr ())"
  by code_simp

lemma run_error_batch_refused:
  "try_body (stub_env error_batch [store_error_batch]) stub_event =
     ([Enter Application,
       Request (PutMetricData ''FHIRBridge/Application'' ''ApplicationErrors'' (PInt 1) ''Count''),
       Request store_error_batch], Inl (ClientError ''An error occurred (AccessDenied)''))"
  by code_simp

text \<open>
  Claim C2. The handler returns status 200 exactly when every step of the pipeline
  returned: the payload was decoded, the three fields were read, the dispatch and the
  storing of the batch returned. Then the body is the fixed confirmation and every
  request the invocation issued was answered without an exception, so no partial success
  is reported. When a step raises, the handler returns status 500 and the body is the
  JSON text of \<open>Error processing logs: \<close> followed by the text of the exception. The
  handler is a total function into responses: no exception leaves it.
\<close>

theorem handler_status:
  "(statusCode (snd (handler E event)) = 200) =
     (\<exists>log_data log_group log_stream log_events.
        decode E event = Inr log_data
        \<and> subscr log_data ''logGroup'' = Inr log_group
        \<and> subscr log_data ''logStream'' = Inr log_stream
        \<and> subscr log_data ''logEvents'' = Inr log_events
        \<and> snd (dispatch E log_group log_events) = Inr ()
        \<and> snd (store_processed_logs E log_data) = Inr ())
   \<and> (case snd (try_body E event) of
        Inr u \<Rightarrow>
          snd (handler E event) =
            \<lparr>statusCode = 200, body = json_dumps_str ''Log processing completed successfully''\<rparr>
          \<and> requests_ok E (fst (handler E event))
      | Inl e \<Rightarrow>
          snd (handler E event) =
            \<lparr>statusCode = 500,
             body = [CHR 0x22] @ ''Error processing logs: ''
                      @ concat (map escape_char (exn_str e)) @ [CHR 0x22]\<rparr>)"
proof (cases "try_body E event")
  case (Pair tr r)
  show ?thesis
  proof (cases r)
    case (Inl e)
    with Pair have "\<not> (\<exists>u. snd (try_body E event) = Inr u)" by simp
    with Pair Inl show ?thesis
      unfolding try_body_returns_iff [symmetric]
      by (simp add: handler_def json_dumps_str_def escape_char_def)
  next
    case (Inr u)
    with Pair have "\<exists>u. snd (try_body E event) = Inr u" by simp
    with Pair Inr io_ok_try_body [of E event] show ?thesis
      unfolding try_body_returns_iff [symmetric]
      by (simp add: handler_def io_ok_def)
  qed
qed

theorem handler_status_witness:
  "snd (handler (stub_env error_batch []) stub_event) =
     \<lparr>statusCode = 200, body = json_dumps_str ''Log processing completed successfully''\<rparr>
   \<and> requests_ok (stub_env error_batch []) (fst (handler (stub_env error_batch []) stub_event))
   \<and> snd (handler (stub_env error_batch [store_error_batch]) stub_event) =
     \<lparr>statusCode = 500,
      body = [CHR 0x22] @ ''Error processing logs: An error occurred (AccessDenied)'' @ [CHR 0x22]\<rparr>"
  using handler_status [of "stub_env error_batch []" stub_event]
    handler_status [of "stub_env error_batch [store_error_batch]" stub_event]
  by (simp add: run_error_batch run_error_batch_refused escape_char_def)

section \<open>One extractor at most, and the raw batch stored (C3)\<close>

lemma length_entered_dispatch: "length (entered (fst (dispatch E lg le))) \<le> 1"
  by (simp add: dispatch_def split: sum.splits)

lemma length_entered_try_body: "length (entered (fst (try_body E event))) \<le> 1"
  using length_entered_dispatch
  by (simp add: try_body_def fst_io_then split: sum.splits)

lemma store_processed_logs_returns:
  assumes "snd (store_processed_logs E log_data) = Inr ()"
  shows "\<exists>log_stream bucket.
           subscr log_data ''logStream'' = Inr log_stream
           \<and> environ E ''LOG_ANALYSIS_BUCKET'' = Some bucket
           \<and> fst (store_processed_logs E log_data) =
               [Request (PutObject bucket
                  (''processed/'' @ utc_date E @ ''/'' @ format_value E log_stream @ ''.json'')
                  log_data ''application/json'')]
           \<and> respond E (PutObject bucket
                  (''processed/'' @ utc_date E @ ''/'' @ format_value E log_stream @ ''.json'')
                  log_data ''application/json'') = None"
  using assms
  by (auto simp: store_processed_logs_def environ_item_def split: sum.splits option.splits)

lemma sublist_stream: "\<not> sublist ''application'' ''vpc-flow'' \<and> \<not> sublist ''security'' ''vpc-flow'' \<and> \<not> sublist ''audit'' ''vpc-flow''"
  by code_simp
lemma run_flow_batch:
  "handler (stub_env (stub_batch ''vpc-flow'' []) []) stub_event =
     ([Request (PutObject ''log-bucket'' ''processed/2024/05/17/stream-1.json''
                 (stub_batch ''vpc-flow'' []) ''application/json'')],
      \<lparr>statusCode = 200, body = json_dumps_str ''Log processing completed successfully''\<rparr>)"
  by code_simp

text \<open>
  Claim C3. An invocation enters at most one extractor. On a decoded batch whose log
  group is a string it enters exactly one when the group contains one of the three
  category names and none otherwise. Whenever the handler returns status 200, whatever
  the category, the last request of the invocation stored the decoded batch itself in the
  bucket, under the key of its stream, and the request was answered without an exception.
\<close>

theorem one_extractor_and_raw_batch_stored:
  "length (entered (fst (handler E event))) \<le> 1
   \<and> (decode E event = Inr log_data
        \<and> subscr log_data ''logGroup'' = Inr (PStr g)
        \<and> subscr log_data ''logStream'' = Inr log_stream
        \<and> subscr log_data ''logEvents'' = Inr log_events
      \<longrightarrow> (length (entered (fst (handler E event))) = 1) =
            (sublist ''application'' g \<or> sublist ''security'' g \<or> sublist ''audit'' g))
   \<and> (statusCode (snd (handler E event)) = 200
      \<longrightarrow> (\<exists>batch stream bucket pre.
             decode E event = Inr batch
             \<and> subscr batch ''logStream'' = Inr stream
             \<and> environ E ''LOG_ANALYSIS_BUCKET'' = Some bucket
             \<and> fst (handler E event) =
                 pre @ [Request (PutObject bucket
                          (''processed/'' @ utc_date E @ ''/'' @ format_value E stream @ ''.json'')
                          batch ''application/json'')]
             \<and> respond E (PutObject bucket
                          (''processed/'' @ utc_date E @ ''/'' @ format_value E stream @ ''.json'')
                          batch ''application/json'') = None))"
proof (intro conjI impI)
  show "length (entered (fst (handler E event))) \<le> 1"
    using length_entered_try_body [of E event] by (simp add: entered_handler)
next
  assume a: "decode E event = Inr log_data
        \<and> subscr log_data ''logGroup'' = Inr (PStr g)
        \<and> subscr log_data ''logStream'' = Inr log_stream
        \<and> subscr log_data ''logEvents'' = Inr log_events"
  then have "try_body E event =
      io_then (dispatch E (PStr g) log_events) (\<lambda>_. store_processed_logs E log_data)"
    by (simp add: try_body_decoded)
  then have "entered (fst (handler E event)) = entered (fst (dispatch E (PStr g) log_events))"
    by (simp add: entered_handler fst_io_then split: sum.splits)
  then show "(length (entered (fst (handler E event))) = 1) =
            (sublist ''application'' g \<or> sublist ''security'' g \<or> sublist ''audit'' g)"
    by (simp only: entered_dispatch) simp
next
  assume "statusCode (snd (handler E event)) = 200"
  then have ok: "\<exists>u. snd (try_body E event) = Inr u"
    by (auto simp: handler_def split: prod.splits sum.splits)
  then obtain log_data log_group log_stream log_events where d:
    "decode E event = Inr log_data"
    "subscr log_data ''logGroup'' = Inr log_group"
    "subscr log_data ''logStream'' = Inr log_stream"
    "subscr log_data ''logEvents'' = Inr log_events"
    "snd (dispatch E log_group log_events) = Inr ()"
    "snd (store_processed_logs E log_data) = Inr ()"
    unfolding try_body_returns_iff by blast
  from store_processed_logs_returns [OF d(6)] obtain stream bucket where s:
    "subscr log_data ''logStream'' = Inr stream"
    "environ E ''LOG_ANALYSIS_BUCKET'' = Some bucket"
    "fst (store_processed_logs E log_data) =
               [Request (PutObject bucket
                  (''processed/'' @ utc_date E @ ''/'' @ format_value E stream @ ''.json'')
                  log_data ''application/json'')]"
    "respond E (PutObject bucket
                  (''processed/'' @ utc_date E @ ''/'' @ format_value E stream @ ''.json'')
                  log_data ''application/json'') = None"
    by blast
  have "fst (try_body E event) =
      fst (dispatch E log_group log_events) @ fst (store_processed_logs E log_data)"
    using d by (simp add: try_body_decoded fst_io_then)
  moreover have "fst (handler E event) = fst (try_body E event)"
    using ok by (auto simp: handler_def split: prod.splits sum.splits)
  ultimately have "fst (handler E event) = fst (dispatch E log_group log_events) @
      [Request (PutObject bucket
                  (''processed/'' @ utc_date E @ ''/'' @ format_value E stream @ ''.json'')
                  log_data ''application/json'')]"
    using s(3) by simp
  with d(1) s(1,2,4) show "\<exists>batch stream bucket pre.
             decode E event = Inr batch
             \<and> subscr batch ''logStream'' = Inr stream
             \<and> environ E ''LOG_ANALYSIS_BUCKET'' = Some bucket
             \<and> fst (handler E event) =
                 pre @ [Request (PutObject bucket
                          (''processed/'' @ utc_date E @ ''/'' @ format_value E stream @ ''.json'')
                          batch ''application/json'')]
             \<and> respond E (PutObject bucket
                          (''processed/'' @ utc_date E @ ''/'' @ format_value E stream @ ''.json'')
                          batch ''application/json'') = None"
    by blast
qed

theorem one_extractor_and_raw_batch_stored_witness:
  "decode (stub_env (stub_batch ''vpc-flow'' []) []) stub_event = Inr (stub_batch ''vpc-flow'' [])
   \<and> subscr (stub_batch ''vpc-flow'' []) ''logGroup'' = Inr (PStr ''vpc-flow'')
   \<and> subscr (stub_batch ''vpc-flow'' []) ''logStream'' = Inr (PStr ''stream-1'')
   \<and> subscr (stub_batch ''vpc-flow'' []) ''logEvents'' = Inr (PList [])
   \<and> statusCode (snd (handler (stub_env (stub_batch ''vpc-flow'' []) []) stub_event)) = 200
   \<and> entered (fst (handler (stub_env (stub_batch ''vpc-flow'' []) []) stub_event)) = []
   \<and> (\<exists>pre. fst (handler (stub_env (stub_batch ''vpc-flow'' []) []) stub_event) =
          pre @ [Request (PutObject ''log-bucket'' ''processed/2024/05/17/stream-1.json''
                   (stub_batch ''vpc-flow'' []) ''application/json'')])"
  using one_extractor_and_raw_batch_stored
          [of "stub_env (stub_batch ''vpc-flow'' []) []" stub_event
              "stub_batch ''vpc-flow'' []" "''vpc-flow''" "PStr ''stream-1''" "PList []"]
  by (simp add: run_flow_batch sublist_stream)

section \<open>The search for a duration\<close>

lemma not_digit_m [simp]: "\<not> is_digit CHR ''m''"
  by (simp add: is_digit_def)


lemma match_here_Nil [simp]: "match_here [] = None"
  by (simp add: match_here_def)





section \<open>The leftmost duration (C10)\<close>





section \<open>The application loop on well-formed records\<close>

lemma subscr_message: "message_of ev = Some m \<Longrightarrow> subscr ev ''message'' = Inr (PStr m)"
  by (cases ev) (auto split: option.splits pyval.splits)

lemma subscr_timestamp: "timestamp_of ev = Some t \<Longrightarrow> subscr ev ''timestamp'' = Inr t"
  by (cases ev) auto

lemma app_loop_count:
  assumes "list_all (\<lambda>ev. message_of ev \<noteq> None) evs"
  shows "\<exists>samples. app_loop evs error_count performance_metrics =
           Inr (error_count
                  + int (length (filter (\<lambda>ev. sublist ''ERROR'' (the (message_of ev))) evs)),
                samples)"
  using assms
proof (induction evs arbitrary: error_count performance_metrics)
  case Nil
  then show ?case by simp
next
  case (Cons ev evs)
  then obtain m where m: "message_of ev = Some m" by auto
  from Cons.prems have rest: "list_all (\<lambda>ev. message_of ev \<noteq> None) evs" by simp
  define ec where "ec = (if sublist ''ERROR'' m then error_count + 1 else error_count)"
  define pm where "pm =
    (if sublist ''Request completed'' m
     then (case make_sample ev (PStr m) of
             Inr s \<Rightarrow> performance_metrics @ [s] | Inl e \<Rightarrow> performance_metrics)
     else performance_metrics)"
  from Cons.IH [OF rest, of ec pm] obtain samples where
    "app_loop evs ec pm =
       Inr (ec + int (length (filter (\<lambda>ev. sublist ''ERROR'' (the (message_of ev))) evs)),
            samples)"
    by blast
  moreover have "app_loop (ev # evs) error_count performance_metrics = app_loop evs ec pm"
    by (simp add: subscr_message [OF m] ec_def pm_def)
  ultimately show ?case
    by (simp add: m ec_def)
qed




section \<open>Performance samples (C4)\<close>





section \<open>The error count and its metric (C8)\<close>

lemma metrics_named_simps [simp]:
  "metrics_named name [] = []"
  "metrics_named name (Enter x # tr) = metrics_named name tr"
  "metrics_named name (Print s # tr) = metrics_named name tr"
  "metrics_named name (Request (PutMetricData ns name' v u) # tr) =
     (if name' = name then PutMetricData ns name' v u # metrics_named name tr
      else metrics_named name tr)"
  "metrics_named name (xs @ ys) = metrics_named name xs @ metrics_named name ys"
  by (simp_all add: metrics_named_def)

lemma fst_send_custom_metric [simp]:
  "fst (send_custom_metric E name v ns) = [Request (PutMetricData ns name v ''Count'')]"
  by (simp add: send_custom_metric_def)

lemma snd_send_custom_metric [simp]:
  "snd (send_custom_metric E name v ns) =
     (case respond E (PutMetricData ns name v ''Count'') of None \<Rightarrow> Inr () | Some e \<Rightarrow> Inl e)"
  by (simp add: send_custom_metric_def)

lemma error_records_run:
  "list_all (\<lambda>ev. message_of ev \<noteq> None) error_records"
  "length (filter (\<lambda>ev. sublist ''ERROR'' (the (message_of ev))) error_records) = 1"
  "list_all (\<lambda>ev. message_of ev \<noteq> None) request_records"
  "length (filter (\<lambda>ev. sublist ''ERROR'' (the (message_of ev))) request_records) = 0"
  by code_simp+

text \<open>
  Claim C8. On a batch of records whose messages are strings, the error count that the
  loop returns is the number of records whose message contains \<open>ERROR\<close>, by case-sensitive
  containment. The extractor issues a request for a metric named \<open>ApplicationErrors\<close>
  exactly when that count is positive; the request is then the only one of that name, it
  is under the namespace \<open>FHIRBridge/Application\<close>, and its value is the count.
\<close>

theorem application_errors_metric:
  assumes "list_all (\<lambda>ev. message_of ev \<noteq> None) evs"
  shows "(\<exists>samples. app_loop evs 0 [] =
            Inr (int (length (filter (\<lambda>ev. sublist ''ERROR'' (the (message_of ev))) evs)),
                 samples))
         \<and> metrics_named ''ApplicationErrors'' (fst (process_application_logs E (PList evs))) =
             (if 0 < length (filter (\<lambda>ev. sublist ''ERROR'' (the (message_of ev))) evs)
              then [PutMetricData ''FHIRBridge/Application'' ''ApplicationErrors''
                      (PInt (int (length (filter (\<lambda>ev. sublist ''ERROR'' (the (message_of ev)))
                                            evs))))
                      ''Count'']
              else [])"
proof -
  from app_loop_count [OF assms, of 0 "[]"] obtain samples where
    run: "app_loop evs 0 [] =
            Inr (int (length (filter (\<lambda>ev. sublist ''ERROR'' (the (message_of ev))) evs)),
                 samples)"
    by auto
  then show ?thesis
    by (simp add: process_application_logs_def fst_io_then split: sum.splits option.splits)
qed

theorem application_errors_metric_witness:
  "list_all (\<lambda>ev. message_of ev \<noteq> None) error_records
   \<and> metrics_named ''ApplicationErrors''
         (fst (process_application_logs (stub_env error_batch []) (PList error_records))) =
       [PutMetricData ''FHIRBridge/Application'' ''ApplicationErrors'' (PInt 1) ''Count'']
   \<and> list_all (\<lambda>ev. message_of ev \<noteq> None) request_records
   \<and> metrics_named ''ApplicationErrors''
         (fst (process_application_logs (stub_env error_batch []) (PList request_records))) = []"
  using application_errors_metric [OF error_records_run(1), of "stub_env error_batch []"]
    application_errors_metric [OF error_records_run(3), of "stub_env error_batch []"]
    error_records_run(1,3)
  by (simp add: error_records_run(2,4))

section \<open>The accuracy of true division\<close>










section \<open>The average response time (C5)\<close>













section \<open>The security checks (C6)\<close>

lemma same_letter_lower: "same_letter c (lower_char c)"
proof (cases "is_upper c")
  case True
  then have "(of_char c :: nat) + 32 < 256"
    by (simp add: is_upper_def)
  then have "(of_char (char_of ((of_char c :: nat) + 32)) :: nat) = of_char c + 32"
    by simp
  with True show ?thesis
    by (simp add: same_letter_def lower_char_def)
next
  case False
  then show ?thesis by (simp add: same_letter_def lower_char_def)
qed

lemma lower_char_same_letter:
  assumes "same_letter c p" and "\<not> is_upper p"
  shows "lower_char c = p"
proof -
  from assms consider "c = p" | "is_upper c" "(of_char p :: nat) = of_char c + 32"
    by (auto simp: same_letter_def)
  then show ?thesis
  proof cases
    case 1
    with assms(2) show ?thesis by (simp add: lower_char_def)
  next
    case 2
    then have "char_of ((of_char c :: nat) + 32) = char_of (of_char p :: nat)" by simp
    with 2(1) show ?thesis by (simp add: lower_char_def)
  qed
qed

lemma map_lower_same_letter:
  assumes "list_all2 same_letter u phrase" and "list_all (\<lambda>p. \<not> is_upper p) phrase"
  shows "map lower_char u = phrase"
  using assms
  by (induction u phrase rule: list_all2_induct) (simp_all add: lower_char_same_letter)

lemma list_all2_same_letter_lower: "list_all2 same_letter u (map lower_char u)"
  by (induction u) (simp_all add: same_letter_lower)

lemma sublist_lower_iff:
  assumes "list_all (\<lambda>p. \<not> is_upper p) phrase"
  shows "sublist phrase (map lower_char m) = ci_contains phrase m"
proof
  assume "sublist phrase (map lower_char m)"
  then obtain u where "sublist u m" "phrase = map lower_char u"
    using sublist_map_rightE by blast
  then show "ci_contains phrase m"
    using list_all2_same_letter_lower [of u]
    by (auto simp: ci_contains_def list_ex_iff)
next
  assume "ci_contains phrase m"
  then obtain u where u: "sublist u m" "list_all2 same_letter u phrase"
    by (auto simp: ci_contains_def list_ex_iff)
  from u(2) assms have p: "map lower_char u = phrase"
    by (rule map_lower_same_letter)
  from u(1) obtain ps ss where "m = ps @ u @ ss"
    by (auto simp: sublist_def)
  then have "map lower_char m = map lower_char ps @ phrase @ map lower_char ss"
    using p by simp
  then show "sublist phrase (map lower_char m)"
    by (auto simp: sublist_def)
qed

lemma phrases_lower:
  "list_all (\<lambda>p. \<not> is_upper p) ''authentication failed''"
  "list_all (\<lambda>p. \<not> is_upper p) ''unauthorized''"
  "list_all (\<lambda>p. \<not> is_upper p) ''forbidden''"
  "list_all (\<lambda>p. \<not> is_upper p) ''blocked''"
  by (simp_all add: is_upper_def)

lemma any_keyword_str:
  "any_keyword (PStr m) [''unauthorized'', ''forbidden'', ''blocked''] =
     Inr (ci_contains ''unauthorized'' m \<or> ci_contains ''forbidden'' m \<or> ci_contains ''blocked'' m)"
  by (simp add: sublist_lower_iff [OF phrases_lower(2)] sublist_lower_iff [OF phrases_lower(3)]
        sublist_lower_iff [OF phrases_lower(4)])

lemma sec_loop_wf:
  assumes "list_all well_formed evs"
  shows "sec_loop evs failed_auth_count suspicious_activities =
           Inr (failed_auth_count + int (length (filter auth_failed evs)),
                suspicious_activities @ map activity (filter suspicious evs))"
  using assms
proof (induction evs arbitrary: failed_auth_count suspicious_activities)
  case Nil
  then show ?case by simp
next
  case (Cons ev evs)
  then obtain m t where m: "message_of ev = Some m" and t: "timestamp_of ev = Some t"
    by (auto simp: well_formed_def)
  from Cons.prems have rest: "list_all well_formed evs" by simp
  show ?case
    by (simp add: Cons.IH [OF rest] subscr_message [OF m] subscr_timestamp [OF t] m t
          any_keyword_str sublist_lower_iff [OF phrases_lower(1)]
          auth_failed_def suspicious_def activity_def del: any_keyword.simps)
qed

lemma security_records_run:
  "list_all well_formed security_records"
  "sec_loop security_records 0 [] =
     Inr (2, [PDict [(''timestamp'', PInt 2),
                     (''message'', PStr ''UNAUTHORIZED: authentication failed for bob'')]])"
  by code_simp+

text \<open>
  Claim C6. On a batch of well-formed records the loop of the security extractor counts
  the records whose message contains \<open>authentication failed\<close> in any mix of letter
  cases, each such record once, and collects, in the order of the batch, one entry with
  the timestamp and the message of each record whose message contains \<open>unauthorized\<close>,
  \<open>forbidden\<close> or \<open>blocked\<close> in any mix of letter cases. The two tests are made on every
  record, neither depending on the other: a record that passes both is counted and
  collected.
\<close>

theorem security_checks:
  assumes "list_all well_formed evs"
  shows "sec_loop evs 0 [] =
           Inr (int (length (filter auth_failed evs)), map activity (filter suspicious evs))"
  using sec_loop_wf [OF assms, of 0 "[]"] by simp

theorem security_checks_witness:
  "list_all well_formed security_records
   \<and> sec_loop security_records 0 [] =
       Inr (2, [PDict [(''timestamp'', PInt 2),
                       (''message'', PStr ''UNAUTHORIZED: authentication failed for bob'')]])
   \<and> length (filter auth_failed security_records) = 2
   \<and> map activity (filter suspicious security_records) =
       [PDict [(''timestamp'', PInt 2),
               (''message'', PStr ''UNAUTHORIZED: authentication failed for bob'')]]"
  using security_checks [OF security_records_run(1)] security_records_run
  by simp

section \<open>Audit events (C7)\<close>







section \<open>The extractors leave the batch as it is (C9)\<close>

lemma push_all_simps [simp]:
  "push_all h a [] = h"
  "push_all h a (ob # obs) = push_all (list_append (h @ [ob]) a (length h)) a obs"
  by (simp_all add: push_all_def alloc_def)

lemma push_all_closed:
  assumes "a < length h" and "h ! a = HList rs"
  shows "push_all h a obs =
           h[a := HList (rs @ [length h ..< length h + length obs])] @ obs"
  using assms
proof (induction obs arbitrary: h rs)
  case Nil
  then have "h[a := HList rs] = h" by (metis list_update_id)
  then show ?case by simp
next
  case (Cons ob obs)
  define h1 where "h1 = list_append (h @ [ob]) a (length h)"
  have h1: "h1 = h[a := HList (rs @ [length h])] @ [ob]"
    using Cons.prems by (simp add: h1_def list_append_def nth_append list_update_append1)
  have a1: "a < length h1" and r1: "h1 ! a = HList (rs @ [length h])"
    using Cons.prems by (simp_all add: h1 nth_append)
  have l1: "length h1 = Suc (length h)" by (simp add: h1)
  have "push_all h a (ob # obs) = push_all h1 a obs"
    by (simp add: h1_def)
  also have "\<dots> = h1[a := HList ((rs @ [length h]) @ [length h1 ..< length h1 + length obs])] @ obs"
    using a1 r1 by (rule Cons.IH)
  finally have "push_all h a (ob # obs) =
      h[a := HList (rs @ length h # [length h1 ..< length h1 + length obs])] @ ob # obs"
    using Cons.prems(1) by (simp add: h1 list_update_append1 del: upt_Suc)
  moreover have "[length h ..< length h + length (ob # obs)]
                   = length h # [length h1 ..< length h1 + length obs]"
    by (simp add: l1 upt_conv_Cons del: upt_Suc)
  ultimately show ?case by (simp only:)
qed

lemma push_all_append:
  "push_all h a (xs @ ys) = push_all (push_all h a xs) a ys"
  by (simp add: push_all_def)


lemma push_one:
  assumes "a < length h" and "h ! a = HList l0"
  shows "list_append (h @ [ob]) a (length h) = h[a := HList (l0 @ [length h])] @ [ob]"
  using assms by (simp add: list_append_def nth_append list_update_append1)

lemma push_one_props:
  assumes "a < length h" and "h ! a = HList l0"
  shows "a < length (list_append (h @ [ob]) a (length h))"
    and "list_append (h @ [ob]) a (length h) ! a = HList (l0 @ [length h])"
    and "length (list_append (h @ [ob]) a (length h)) = Suc (length h)"
    and "\<And>r. r < length h \<Longrightarrow> r \<noteq> a \<Longrightarrow> list_append (h @ [ob]) a (length h) ! r = h ! r"
  using assms unfolding push_one [OF assms]
  by (simp_all add: nth_append)

lemma obj_subscr_event_of: "obj_subscr ob k = subscr (event_of ob) k"
  by (cases ob) simp_all

lemma h_make_sample_refines:
  "h_make_sample ob msg =
     (case make_sample (event_of ob) msg of Inl e \<Rightarrow> Inl e | Inr s \<Rightarrow> Inr (sample_obj s))"
  by (cases "extract_duration msg"; cases "subscr (event_of ob) ''timestamp''")
    (simp_all add: h_make_sample_def make_sample_def obj_subscr_event_of sample_obj_def)

lemma app_loop_acc:
  "app_loop evs ec pm =
     (case app_loop evs ec [] of Inl e \<Rightarrow> Inl e | Inr (n, s) \<Rightarrow> Inr (n, pm @ s))"
proof (induction evs arbitrary: ec pm)
  case Nil
  then show ?case by simp
next
  case (Cons ev evs)
  show ?case
  proof (cases "subscr ev ''message''")
    case (Inl e)
    then show ?thesis by simp
  next
    case msg: (Inr msg)
    show ?thesis
    proof (cases "contains ''ERROR'' msg")
      case (Inl e)
      with msg show ?thesis by simp
    next
      case err: (Inr is_error)
      show ?thesis
      proof (cases "contains ''Request completed'' msg")
        case (Inl e)
        with msg err show ?thesis by simp
      next
        case req: (Inr is_request)
        define ec' where "ec' = (if is_error then ec + 1 else ec)"
        define new where "new =
          (if is_request then (case make_sample ev msg of Inr s \<Rightarrow> [s] | Inl e \<Rightarrow> []) else [])"
        have l: "app_loop (ev # evs) ec pm = app_loop evs ec' (pm @ new)"
          using msg err req by (simp add: ec'_def new_def split: sum.splits)
        have r: "app_loop (ev # evs) ec [] = app_loop evs ec' new"
          using msg err req by (simp add: ec'_def new_def split: sum.splits)
        have a: "app_loop evs ec' (pm @ new) =
            (case app_loop evs ec' [] of Inl e \<Rightarrow> Inl e | Inr (n, s) \<Rightarrow> Inr (n, (pm @ new) @ s))"
          by (rule Cons.IH)
        have b: "app_loop evs ec' new =
            (case app_loop evs ec' [] of Inl e \<Rightarrow> Inl e | Inr (n, s) \<Rightarrow> Inr (n, new @ s))"
          by (rule Cons.IH)
        show ?thesis
          unfolding l r a b by (cases "app_loop evs ec' []") auto
      qed
    qed
  qed
qed

lemma h_app_loop_refines:
  assumes "pm < length h" and "h ! pm = HList l0"
    and "list_all (\<lambda>r. r < length h \<and> r \<noteq> pm) rs"
  shows "h_app_loop h rs ec pm =
           (case app_loop (map (\<lambda>r. event_of (h ! r)) rs) ec [] of
              Inl e \<Rightarrow> Inl e
            | Inr (n, smps) \<Rightarrow> Inr (n, push_all h pm (map sample_obj smps)))"
  using assms
proof (induction rs arbitrary: h ec l0)
  case Nil
  then show ?case by simp
next
  case (Cons r rs)
  define ev where "ev = event_of (h ! r)"
  define evs where "evs = map (\<lambda>r. event_of (h ! r)) rs"
  from Cons.prems have rs: "list_all (\<lambda>r. r < length h \<and> r \<noteq> pm) rs"
    by simp
  show ?case
  proof (cases "subscr ev ''message''")
    case (Inl e)
    then show ?thesis by (simp add: obj_subscr_event_of ev_def)
  next
    case msg: (Inr msg)
    show ?thesis
    proof (cases "contains ''ERROR'' msg")
      case (Inl e)
      with msg show ?thesis by (simp add: obj_subscr_event_of ev_def)
    next
      case err: (Inr is_error)
      show ?thesis
      proof (cases "contains ''Request completed'' msg")
        case (Inl e)
        with msg err show ?thesis by (simp add: obj_subscr_event_of ev_def)
      next
        case req: (Inr is_request)
        define ec' where "ec' = (if is_error then ec + 1 else ec)"
        show ?thesis
        proof (cases "is_request \<and> (\<exists>s. make_sample ev msg = Inr s)")
          case True
          then obtain s where s: "make_sample ev msg = Inr s" and is_request by blast
          define h1 where "h1 = list_append (h @ [sample_obj s]) pm (length h)"
          note p = push_one_props [OF Cons.prems(1,2), where ob = "sample_obj s", folded h1_def]
          have same: "map (\<lambda>r. event_of (h1 ! r)) rs = evs"
            unfolding evs_def using rs p(4) by (induction rs) simp_all
          have rs1: "list_all (\<lambda>r. r < length h1 \<and> r \<noteq> pm) rs"
            using rs p(3) by (induction rs) simp_all
          have l: "h_app_loop h (r # rs) ec pm = h_app_loop h1 rs ec' pm"
            using msg err req s \<open>is_request\<close>
            by (simp add: obj_subscr_event_of ev_def [symmetric] h_make_sample_refines
                  alloc_def h1_def ec'_def)
          have r: "app_loop (ev # evs) ec [] = app_loop evs ec' [s]"
            using msg err req s \<open>is_request\<close> by (simp add: ec'_def)
          have ih: "h_app_loop h1 rs ec' pm =
              (case app_loop evs ec' [] of
                 Inl e \<Rightarrow> Inl e
               | Inr (n, smps) \<Rightarrow> Inr (n, push_all h1 pm (map sample_obj smps)))"
            using Cons.IH [OF p(1) p(2) rs1, of ec'] by (simp add: same)
          show ?thesis
            unfolding list.map ev_def [symmetric] evs_def [symmetric] l r ih
            by (subst app_loop_acc [of evs ec' "[s]"]) (simp add: h1_def split: sum.splits)
        next
          case False
          have l: "h_app_loop h (r # rs) ec pm = h_app_loop h rs ec' pm"
            using msg err req False
            by (auto simp: obj_subscr_event_of ev_def [symmetric] h_make_sample_refines
                  ec'_def split: sum.splits)
          have r: "app_loop (ev # evs) ec [] = app_loop evs ec' []"
            using msg err req False by (auto simp: ec'_def split: sum.splits)
          show ?thesis
            unfolding list.map ev_def [symmetric] evs_def [symmetric] l r
            using Cons.IH [OF Cons.prems(1,2) rs, of ec'] by (simp add: evs_def)
        qed
      qed
    qed
  qed
qed


lemma push_all_props:
  assumes "a < length h" and "h ! a = HList l0"
  shows "a < length (push_all h a obs)"
    and "\<exists>l1. push_all h a obs ! a = HList l1"
    and "length h \<le> length (push_all h a obs)"
    and "\<And>r. r < length h \<Longrightarrow> r \<noteq> a \<Longrightarrow> push_all h a obs ! r = h ! r"
  using assms unfolding push_all_closed [OF assms]
  by (simp_all add: nth_append)

lemma and_then_assoc:
  "and_then (and_then m f) g = and_then m (\<lambda>x. and_then (f x) g)"
  by (cases m) simp_all

lemma and_then_if:
  "and_then (if c then a else b) f = (if c then and_then a f else and_then b f)"
  by simp

lemma sec_loop_step:
  "sec_loop (ev # evs) fc sa =
     and_then (sec_step ev)
       (\<lambda>(is_failed, new). sec_loop evs (if is_failed then fc + 1 else fc) (sa @ new))"
  by (simp add: sec_step_def and_then_assoc and_then_if del: any_keyword.simps
        cong: if_cong)

lemma h_sec_loop_step:
  "h_sec_loop h (r # rs) fc sa =
     and_then (sec_step (event_of (h ! r)))
       (\<lambda>(is_failed, new).
          h_sec_loop (push_all h sa (map entry_obj new)) rs (if is_failed then fc + 1 else fc) sa)"
  by (simp add: sec_step_def and_then_assoc and_then_if obj_subscr_event_of alloc_def
        del: any_keyword.simps cong: if_cong)

lemma sec_loop_acc:
  "sec_loop evs fc sa =
     (case sec_loop evs fc [] of Inl e \<Rightarrow> Inl e | Inr (n, s) \<Rightarrow> Inr (n, sa @ s))"
proof (induction evs arbitrary: fc sa)
  case Nil
  then show ?case by simp
next
  case (Cons ev evs)
  show ?case
  proof (cases "sec_step ev")
    case (Inl e)
    then show ?thesis by (simp add: sec_loop_step del: sec_loop.simps)
  next
    case (Inr p)
    obtain is_failed new where p: "p = (is_failed, new)" by (cases p)
    define fc' where "fc' = (if is_failed then fc + 1 else fc)"
    have a: "sec_loop evs fc' (sa @ new) =
        (case sec_loop evs fc' [] of Inl e \<Rightarrow> Inl e | Inr (n, s) \<Rightarrow> Inr (n, (sa @ new) @ s))"
      by (rule Cons.IH)
    have b: "sec_loop evs fc' new =
        (case sec_loop evs fc' [] of Inl e \<Rightarrow> Inl e | Inr (n, s) \<Rightarrow> Inr (n, new @ s))"
      by (rule Cons.IH)
    have l: "sec_loop (ev # evs) fc sa = sec_loop evs fc' (sa @ new)"
      and r: "sec_loop (ev # evs) fc [] = sec_loop evs fc' new"
      using Inr p by (simp_all add: sec_loop_step fc'_def del: sec_loop.simps)
    show ?thesis
      unfolding l r a b by (cases "sec_loop evs fc' []") auto
  qed
qed

lemma h_sec_loop_refines:
  assumes "sa < length h" and "h ! sa = HList l0"
    and "list_all (\<lambda>r. r < length h \<and> r \<noteq> sa) rs"
  shows "h_sec_loop h rs fc sa =
           (case sec_loop (map (\<lambda>r. event_of (h ! r)) rs) fc [] of
              Inl e \<Rightarrow> Inl e
            | Inr (n, acts) \<Rightarrow> Inr (n, push_all h sa (map entry_obj acts)))"
  using assms
proof (induction rs arbitrary: h fc l0)
  case Nil
  then show ?case by simp
next
  case (Cons r rs)
  define ev where "ev = event_of (h ! r)"
  define evs where "evs = map (\<lambda>r. event_of (h ! r)) rs"
  from Cons.prems have rs: "list_all (\<lambda>r. r < length h \<and> r \<noteq> sa) rs"
    by simp
  show ?case
  proof (cases "sec_step ev")
    case (Inl e)
    then show ?thesis
      by (simp add: sec_loop_step h_sec_loop_step ev_def del: sec_loop.simps h_sec_loop.simps)
  next
    case (Inr p)
    obtain is_failed new where p: "p = (is_failed, new)" by (cases p)
    define fc' where "fc' = (if is_failed then fc + 1 else fc)"
    define h1 where "h1 = push_all h sa (map entry_obj new)"
    note q = push_all_props [OF Cons.prems(1,2), where obs = "map entry_obj new", folded h1_def]
    from q(2) obtain l1 where l1: "h1 ! sa = HList l1" by blast
    have same: "map (\<lambda>r. event_of (h1 ! r)) rs = evs"
      unfolding evs_def using rs q(4) by (induction rs) simp_all
    have rs1: "list_all (\<lambda>r. r < length h1 \<and> r \<noteq> sa) rs"
      using rs q(3) by (induction rs) simp_all
    have l: "h_sec_loop h (r # rs) fc sa = h_sec_loop h1 rs fc' sa"
      using Inr p
      by (simp add: h_sec_loop_step ev_def [symmetric] h1_def fc'_def del: h_sec_loop.simps)
    have r: "sec_loop (ev # evs) fc [] = sec_loop evs fc' new"
      using Inr p by (simp add: sec_loop_step fc'_def del: sec_loop.simps)
    have ih: "h_sec_loop h1 rs fc' sa =
        (case sec_loop evs fc' [] of
           Inl e \<Rightarrow> Inl e
         | Inr (n, acts) \<Rightarrow> Inr (n, push_all h1 sa (map entry_obj acts)))"
      using Cons.IH [OF q(1) l1 rs1, of fc'] by (simp add: same)
    show ?thesis
      unfolding list.map ev_def [symmetric] evs_def [symmetric] l r ih
      by (subst sec_loop_acc [of evs fc' new])
        (simp add: h1_def push_all_append split: sum.splits)
  qed
qed


lemma h_audit_entry_refines:
  "h_audit_entry E ob = and_then (audit_entry E (event_of ob)) (\<lambda>d. Inr (entry_obj d))"
  by (simp add: h_audit_entry_def audit_entry_def and_then_assoc obj_subscr_event_of)

lemma audit_loop_acc: "audit_loop E evs acc = acc @ audit_loop E evs []"
proof (induction evs arbitrary: acc)
  case Nil
  then show ?case by simp
next
  case (Cons ev evs)
  define new where "new = (case audit_entry E ev of Inr d \<Rightarrow> [d] | Inl e \<Rightarrow> [])"
  have l: "audit_loop E (ev # evs) acc = audit_loop E evs (acc @ new)"
    and r: "audit_loop E (ev # evs) [] = audit_loop E evs new"
    by (simp_all add: new_def split: sum.splits)
  have a: "audit_loop E evs (acc @ new) = (acc @ new) @ audit_loop E evs []"
    by (rule Cons.IH)
  have b: "audit_loop E evs new = new @ audit_loop E evs []"
    by (rule Cons.IH)
  show ?case
    unfolding l r a b by simp
qed

lemma h_audit_loop_refines:
  assumes "ae < length h" and "h ! ae = HList l0"
    and "list_all (\<lambda>r. r < length h \<and> r \<noteq> ae) rs"
  shows "h_audit_loop E h rs ae =
           push_all h ae (map entry_obj (audit_loop E (map (\<lambda>r. event_of (h ! r)) rs) []))"
  using assms
proof (induction rs arbitrary: h l0)
  case Nil
  then show ?case by simp
next
  case (Cons r rs)
  define ev where "ev = event_of (h ! r)"
  define evs where "evs = map (\<lambda>r. event_of (h ! r)) rs"
  define new where "new = (case audit_entry E ev of Inr d \<Rightarrow> [d] | Inl e \<Rightarrow> [])"
  define h1 where "h1 = push_all h ae (map entry_obj new)"
  from Cons.prems have rs: "list_all (\<lambda>r. r < length h \<and> r \<noteq> ae) rs"
    by simp
  note q = push_all_props [OF Cons.prems(1,2), where obs = "map entry_obj new", folded h1_def]
  from q(2) obtain l1 where l1: "h1 ! ae = HList l1" by blast
  have same: "map (\<lambda>r. event_of (h1 ! r)) rs = evs"
    unfolding evs_def using rs q(4) by (induction rs) simp_all
  have rs1: "list_all (\<lambda>r. r < length h1 \<and> r \<noteq> ae) rs"
    using rs q(3) by (induction rs) simp_all
  have l: "h_audit_loop E h (r # rs) ae = h_audit_loop E h1 rs ae"
    by (simp add: h_audit_entry_refines ev_def [symmetric] h1_def new_def alloc_def
          split: sum.splits)
  have r: "audit_loop E (ev # evs) [] = new @ audit_loop E evs []"
    using audit_loop_acc [of E evs new] by (simp add: new_def split: sum.splits)
  have ih: "h_audit_loop E h1 rs ae = push_all h1 ae (map entry_obj (audit_loop E evs []))"
    using Cons.IH [OF q(1) l1 rs1] by (simp add: same)
  show ?case
    unfolding list.map ev_def [symmetric] evs_def [symmetric] l r ih
    by (simp add: h1_def push_all_append)
qed

lemma push_all_fresh:
  "push_all (h @ [HList []]) (length h) obs = extended h obs"
proof -
  have "push_all (h @ [HList []]) (length h) obs =
          (h @ [HList []])[length h := HList ([] @ [length (h @ [HList []]) ..<
             length (h @ [HList []]) + length obs])] @ obs"
    by (rule push_all_closed) simp_all
  then show ?thesis by (simp add: extended_def)
qed

lemma take_extended [simp]: "take (length h) (extended h obs) = h"
  by (simp add: extended_def)

lemma length_extended [simp]: "length (extended h obs) = Suc (length h + length obs)"
  by (simp add: extended_def)

lemma nth_extended_old [simp]: "a < length h \<Longrightarrow> extended h obs ! a = h ! a"
  by (simp add: extended_def nth_append)

lemma nth_extended_new: "extended h obs ! Suc (length h + i) = obs ! i"
  by (simp add: extended_def nth_append del: upt_Suc)

lemma nth_extended_list:
  "extended h obs ! length h = HList [Suc (length h) ..< Suc (length h) + length obs]"
  by (simp add: extended_def nth_append del: upt_Suc)

lemma read_list_new [simp]: "read_list (extended h obs) (length h) = obs"
proof -
  have "map ((!) (extended h obs)) [Suc (length h) ..< Suc (length h) + length obs] = obs"
  proof (rule nth_equalityI)
    show "length (map ((!) (extended h obs)) [Suc (length h) ..< Suc (length h) + length obs])
            = length obs"
      by (simp del: upt_Suc)
  next
    fix i
    assume "i < length (map ((!) (extended h obs))
                          [Suc (length h) ..< Suc (length h) + length obs])"
    then have i: "i < length obs" by (simp del: upt_Suc)
    then have "[Suc (length h) ..< Suc (length h) + length obs] ! i = Suc (length h) + i"
      by (simp del: upt_Suc)
    with i show "map ((!) (extended h obs)) [Suc (length h) ..< Suc (length h) + length obs] ! i
                   = obs ! i"
      by (simp add: nth_extended_new del: upt_Suc)
  qed
  then show ?thesis
    by (simp add: read_list_def nth_extended_list del: upt_Suc)
qed

lemma read_list_old:
  assumes "batch_in_store h a"
  shows "read_list (extended h obs) a = read_list h a"
proof (cases "h ! a")
  case (HList rs)
  with assms have "list_all (\<lambda>r. r < length h) rs" and "a < length h"
    by (simp_all add: batch_in_store_def)
  then show ?thesis
    using HList by (simp add: read_list_def list_all_iff)
next
  case (HDict kvs)
  with assms show ?thesis
    by (simp add: read_list_def batch_in_store_def)
qed

lemma batch_in_store_extended:
  assumes "batch_in_store h a"
  shows "batch_in_store (extended h obs) a"
proof (cases "h ! a")
  case (HList rs)
  with assms have "list_all (\<lambda>r. r < length h) rs" and "a < length h"
    by (simp_all add: batch_in_store_def)
  then show ?thesis
    using HList by (auto simp: batch_in_store_def list_all_iff)
next
  case (HDict kvs)
  with assms show ?thesis
    by (simp add: batch_in_store_def)
qed


lemma events_of_batch:
  assumes "batch_in_store h le" and "h_events (h ! le) = Inr rs"
  shows "list_all (\<lambda>r. r < length (h @ [HList []]) \<and> r \<noteq> length h) rs"
    and "map (\<lambda>r. event_of ((h @ [HList []]) ! r)) rs = map event_of (read_list h le)"
proof -
  have "list_all (\<lambda>r. r < length h) rs \<and> read_list h le = map ((!) h) rs"
  proof (cases "h ! le")
    case (HList rs')
    with assms show ?thesis
      by (simp add: batch_in_store_def read_list_def)
  next
    case (HDict kvs)
    with assms show ?thesis
      by (simp add: read_list_def split: if_splits)
  qed
  then show "list_all (\<lambda>r. r < length (h @ [HList []]) \<and> r \<noteq> length h) rs"
    and "map (\<lambda>r. event_of ((h @ [HList []]) ! r)) rs = map event_of (read_list h le)"
    by (auto simp: list_all_iff nth_append)
qed

lemma h_app_extract_eq:
  assumes "batch_in_store h le"
  shows "h_app_extract h le =
           and_then (h_events (h ! le))
             (\<lambda>rs. case app_loop (map event_of (read_list h le)) 0 [] of
                     Inl e \<Rightarrow> Inl e
                   | Inr (n, smps) \<Rightarrow> Inr (n, length h, extended h (map sample_obj smps)))"
proof (cases "h_events (h ! le)")
  case (Inl e)
  with assms show ?thesis
    by (simp add: h_app_extract_def alloc_def nth_append batch_in_store_def)
next
  case (Inr rs)
  note ev = events_of_batch [OF assms Inr]
  have "h_app_loop (h @ [HList []]) rs 0 (length h) =
          (case app_loop (map event_of (read_list h le)) 0 [] of
             Inl e \<Rightarrow> Inl e
           | Inr (n, smps) \<Rightarrow> Inr (n, extended h (map sample_obj smps)))"
    unfolding ev(2) [symmetric] push_all_fresh [symmetric]
    using ev(1) by (intro h_app_loop_refines [where ?l0.0 = "[]"]) simp_all
  with assms Inr show ?thesis
    by (simp add: h_app_extract_def alloc_def nth_append batch_in_store_def
          split: sum.splits)
qed

lemma h_sec_extract_eq:
  assumes "batch_in_store h le"
  shows "h_sec_extract h le =
           and_then (h_events (h ! le))
             (\<lambda>rs. case sec_loop (map event_of (read_list h le)) 0 [] of
                     Inl e \<Rightarrow> Inl e
                   | Inr (n, acts) \<Rightarrow> Inr (n, length h, extended h (map entry_obj acts)))"
proof (cases "h_events (h ! le)")
  case (Inl e)
  with assms show ?thesis
    by (simp add: h_sec_extract_def alloc_def nth_append batch_in_store_def)
next
  case (Inr rs)
  note ev = events_of_batch [OF assms Inr]
  have "h_sec_loop (h @ [HList []]) rs 0 (length h) =
          (case sec_loop (map event_of (read_list h le)) 0 [] of
             Inl e \<Rightarrow> Inl e
           | Inr (n, acts) \<Rightarrow> Inr (n, extended h (map entry_obj acts)))"
    unfolding ev(2) [symmetric] push_all_fresh [symmetric]
    using ev(1) by (intro h_sec_loop_refines [where ?l0.0 = "[]"]) simp_all
  with assms Inr show ?thesis
    by (simp add: h_sec_extract_def alloc_def nth_append batch_in_store_def
          split: sum.splits)
qed

lemma h_audit_extract_eq:
  assumes "batch_in_store h le"
  shows "h_audit_extract E h le =
           (length h,
            extended h (map entry_obj (audit_loop E (map event_of (read_list h le)) [])))"
proof (cases "h ! le")
  case (HList rs)
  then have e: "h_events (h ! le) = Inr rs" by simp
  note ev = events_of_batch [OF assms e]
  have "h_audit_loop E (h @ [HList []]) rs (length h) =
          extended h (map entry_obj (audit_loop E (map event_of (read_list h le)) []))"
    unfolding ev(2) [symmetric] push_all_fresh [symmetric]
    using ev(1) by (intro h_audit_loop_refines [where ?l0.0 = "[]"]) simp_all
  with assms HList show ?thesis
    by (simp add: h_audit_extract_def alloc_def nth_append batch_in_store_def)
next
  case (HDict kvs)
  with assms show ?thesis
    by (simp add: h_audit_extract_def alloc_def nth_append batch_in_store_def read_list_def
          extended_def)
qed

lemma batch_unchanged:
  assumes "batch_in_store h le"
  shows "h_events (extended h obs ! le) = h_events (h ! le)"
    and "read_list (extended h obs) le = read_list h le"
    and "batch_in_store (extended h obs) le"
  using assms read_list_old [OF assms] batch_in_store_extended [OF assms]
  by (simp_all add: batch_in_store_def)


lemma app_extract_pure:
  assumes b: "batch_in_store h le" and run: "h_app_extract h le = Inr (n, pm, h')"
  shows "take (length h) h' = h
         \<and> (\<exists>smps. app_loop (map event_of (read_list h le)) 0 [] = Inr (n, smps)
                    \<and> read_list h' pm = map sample_obj smps)
         \<and> (\<exists>pm2 h2. h_app_extract h' le = Inr (n, pm2, h2)
                    \<and> read_list h2 pm2 = read_list h' pm)"
proof -
  from run obtain rs smps where ev: "h_events (h ! le) = Inr rs"
    and loop: "app_loop (map event_of (read_list h le)) 0 [] = Inr (n, smps)"
    and pm: "pm = length h" and h': "h' = extended h (map sample_obj smps)"
    unfolding h_app_extract_eq [OF b]
    by (cases "h_events (h ! le)"; cases "app_loop (map event_of (read_list h le)) 0 []") auto
  note u = batch_unchanged [OF b, of "map sample_obj smps"]
  have again: "h_app_extract h' le =
      Inr (n, length h', extended h' (map sample_obj smps))"
    unfolding h' h_app_extract_eq [OF u(3)] u(1) u(2) ev loop by simp
  have r1: "read_list h' pm = map sample_obj smps"
    unfolding h' pm by (rule read_list_new)
  have r2: "read_list (extended h' (map sample_obj smps)) (length h') = map sample_obj smps"
    by (rule read_list_new)
  have t: "take (length h) h' = h"
    unfolding h' by (rule take_extended)
  show ?thesis
    using loop again r1 r2 t by metis
qed

lemma sec_extract_pure:
  assumes b: "batch_in_store h le" and run: "h_sec_extract h le = Inr (n, sa, h')"
  shows "take (length h) h' = h
         \<and> (\<exists>acts. sec_loop (map event_of (read_list h le)) 0 [] = Inr (n, acts)
                    \<and> read_list h' sa = map entry_obj acts)
         \<and> (\<exists>sa2 h2. h_sec_extract h' le = Inr (n, sa2, h2)
                    \<and> read_list h2 sa2 = read_list h' sa)"
proof -
  from run obtain rs acts where ev: "h_events (h ! le) = Inr rs"
    and loop: "sec_loop (map event_of (read_list h le)) 0 [] = Inr (n, acts)"
    and sa: "sa = length h" and h': "h' = extended h (map entry_obj acts)"
    unfolding h_sec_extract_eq [OF b]
    by (cases "h_events (h ! le)"; cases "sec_loop (map event_of (read_list h le)) 0 []") auto
  note u = batch_unchanged [OF b, of "map entry_obj acts"]
  have again: "h_sec_extract h' le =
      Inr (n, length h', extended h' (map entry_obj acts))"
    unfolding h' h_sec_extract_eq [OF u(3)] u(1) u(2) ev loop by simp
  have r1: "read_list h' sa = map entry_obj acts"
    unfolding h' sa by (rule read_list_new)
  have r2: "read_list (extended h' (map entry_obj acts)) (length h') = map entry_obj acts"
    by (rule read_list_new)
  have t: "take (length h) h' = h"
    unfolding h' by (rule take_extended)
  show ?thesis
    using loop again r1 r2 t by metis
qed

lemma audit_extract_pure:
  assumes b: "batch_in_store h le" and run: "h_audit_extract E h le = (ae, h')"
  shows "take (length h) h' = h
         \<and> read_list h' ae = map entry_obj (audit_loop E (map event_of (read_list h le)) [])
         \<and> (\<exists>ae2 h2. h_audit_extract E h' le = (ae2, h2)
                    \<and> read_list h2 ae2 = read_list h' ae)"
proof -
  define obs where "obs = map entry_obj (audit_loop E (map event_of (read_list h le)) [])"
  from run have ae: "ae = length h" and h': "h' = extended h obs"
    unfolding h_audit_extract_eq [OF b] obs_def by simp_all
  note u = batch_unchanged [OF b, of obs]
  have "h_audit_extract E (extended h obs) le =
      (length (extended h obs),
       extended (extended h obs)
         (map entry_obj (audit_loop E (map event_of (read_list h le)) [])))"
    by (simp only: h_audit_extract_eq [OF u(3)] u(2))
  then have again: "h_audit_extract E h' le = (length h', extended h' obs)"
    by (simp only: h' obs_def)
  have r1: "read_list h' ae = obs"
    unfolding h' ae by (rule read_list_new)
  have r2: "read_list (extended h' obs) (length h') = obs"
    by (rule read_list_new)
  have t: "take (length h) h' = h"
    unfolding h' by (rule take_extended)
  show ?thesis
    using again r1 r2 t unfolding obs_def by metis
qed

lemma two_record_store_run:
  "batch_in_store two_record_store 2"
  "h_app_extract two_record_store 2 = Inr (1, 3, two_record_store_after)"
  "take (length two_record_store) two_record_store_after = two_record_store"
  "read_list two_record_store_after 3 =
     [HDict [(''timestamp'', PInt 2), (''duration'', PInt 42),
             (''message'', PStr ''Request completed in 42ms'')]]"
  by code_simp+

text \<open>
  Claim C9. Over the object store, for a batch that is well placed in it, each of the
  three extractors, when it returns, leaves every object that was in the store before the
  call as it was: the batch and its records are not changed, and the results are new
  objects. What it returns is what the loop of the first embedding computes from the
  sequence of the records alone: the same count, and a list that holds the same samples,
  or entries, in the same order. Running the extractor again on the store that the first
  run left returns the same count and a list that holds the same objects in the same
  order.
\<close>

theorem extractors_leave_batch_unchanged:
  assumes "batch_in_store h log_events"
  shows "(\<forall>n pm h'. h_app_extract h log_events = Inr (n, pm, h') \<longrightarrow>
            take (length h) h' = h
            \<and> (\<exists>smps. app_loop (map event_of (read_list h log_events)) 0 [] = Inr (n, smps)
                       \<and> read_list h' pm = map sample_obj smps)
            \<and> (\<exists>pm2 h2. h_app_extract h' log_events = Inr (n, pm2, h2)
                       \<and> read_list h2 pm2 = read_list h' pm))
         \<and> (\<forall>n sa h'. h_sec_extract h log_events = Inr (n, sa, h') \<longrightarrow>
            take (length h) h' = h
            \<and> (\<exists>acts. sec_loop (map event_of (read_list h log_events)) 0 [] = Inr (n, acts)
                       \<and> read_list h' sa = map entry_obj acts)
            \<and> (\<exists>sa2 h2. h_sec_extract h' log_events = Inr (n, sa2, h2)
                       \<and> read_list h2 sa2 = read_list h' sa))
         \<and> (\<forall>ae h'. h_audit_extract E h log_events = (ae, h') \<longrightarrow>
            take (length h) h' = h
            \<and> read_list h' ae =
                map entry_obj (audit_loop E (map event_of (read_list h log_events)) [])
            \<and> (\<exists>ae2 h2. h_audit_extract E h' log_events = (ae2, h2)
                       \<and> read_list h2 ae2 = read_list h' ae))"
  using app_extract_pure [OF assms] sec_extract_pure [OF assms]
    audit_extract_pure [OF assms, of E]
  by blast

theorem extractors_leave_batch_unchanged_witness:
  "batch_in_store two_record_store 2
   \<and> h_app_extract two_record_store 2 = Inr (1, 3, two_record_store_after)
   \<and> take (length two_record_store) two_record_store_after = two_record_store
   \<and> (\<exists>pm2 h2. h_app_extract two_record_store_after 2 = Inr (1, pm2, h2)
          \<and> read_list h2 pm2 =
              [HDict [(''timestamp'', PInt 2), (''duration'', PInt 42),
                      (''message'', PStr ''Request completed in 42ms'')]])"
  using extractors_leave_batch_unchanged [OF two_record_store_run(1)] two_record_store_run
  by metis

end
